theory Spec2Isabelle
  imports Main "HOL-Library.Word" "HOL-Library.Sublist"
begin

unbundle bit_operations_syntax

section \<open>The WAR archive loader of \<^verbatim>\<open>resource/archive.go\<close>\<close>

text \<open>
  The development embeds \<^verbatim>\<open>OpenArchiveFrom\<close>, \<^verbatim>\<open>isPlaceHolder\<close>,
  \<^verbatim>\<open>readByte\<close>, \<^verbatim>\<open>readShort\<close> and \<^verbatim>\<open>uncompressData\<close> of
  \<^verbatim>\<open>src/resource/archive.go\<close>. Go's \<^verbatim>\<open>(value, error)\<close> results are tuples whose
  error component is an \<open>error option\<close> (\<open>None\<close> is \<^verbatim>\<open>nil\<close>), the stream that the
  functions read from is passed in and returned, and every loop is a recursive function.
\<close>

subsection \<open>Bytes, errors and the stream\<close>

type_synonym u8 = "8 word"
type_synonym u16 = "16 word"
type_synonym u32 = "32 word"

text \<open>
  The error values that can reach the caller: \<^verbatim>\<open>io.EOF\<close> and
  \<^verbatim>\<open>io.ErrUnexpectedEOF\<close> of the standard library, the package's
  \<^verbatim>\<open>ErrUnsupportedVersion\<close>, the two anonymous errors built with
  \<^verbatim>\<open>errors.New\<close> (lines 114 and 127), and any other failure of the underlying stream.
\<close>

datatype error =
    EOF
  | ErrUnexpectedEOF
  | ErrUnsupportedVersion
  | ErrUnknownVersion
  | ErrTableMismatch
  | ErrIO string

text \<open>
  The stream is an \<^verbatim>\<open>io.ReadSeeker\<close> over a finite file: its content, the current
  position, and a script. With an empty script the stream is an \<^verbatim>\<open>*os.File\<close>: a read of
  \<open>n > 0\<close> bytes returns the bytes that are left, up to \<open>n\<close>, and \<^verbatim>\<open>(0, io.EOF)\<close> at the end of
  the file. The script lists what the \<^verbatim>\<open>io.Reader\<close> contract allows beyond that, one entry
  per call: \<open>Deliver k\<close> makes the next read return at most \<open>k\<close> bytes (a short read, and for
  \<open>k = 0\<close> a read of no bytes with a nil error), \<open>Fail e\<close> makes the next call fail with \<open>e\<close>.
  The script is finite: a reader that returns no byte and no error for ever, on which
  \<^verbatim>\<open>io.ReadFull\<close> would not return, is not a value of this type.
\<close>

datatype event = Deliver nat | Fail error

record reader =
  bytes :: "u8 list"
  pos :: nat
  script :: "event list"

definition fileRead :: "reader \<Rightarrow> nat \<Rightarrow> u8 list \<times> error option \<times> reader" where
  "fileRead r n =
     (if n = 0 then ([], None, r)
      else if length (bytes r) \<le> pos r then ([], Some EOF, r)
      else (take n (drop (pos r) (bytes r)), None,
            r\<lparr>pos := pos r + length (take n (drop (pos r) (bytes r)))\<rparr>))"

text \<open>
  \<open>Read r n\<close> is \<^verbatim>\<open>r.Read(p)\<close> with \<^verbatim>\<open>len(p) = n\<close>: the bytes stored at the front of
  \<^verbatim>\<open>p\<close> (their number is Go's first result), the error, and the stream afterwards.
\<close>

definition Read :: "reader \<Rightarrow> nat \<Rightarrow> u8 list \<times> error option \<times> reader" where
  "Read r n =
     (case script r of
        [] \<Rightarrow> fileRead r n
      | Deliver k # es \<Rightarrow> fileRead (r\<lparr>script := es\<rparr>) (min k n)
      | Fail e # es \<Rightarrow> ([], Some e, r\<lparr>script := es\<rparr>))"

text \<open>\<^verbatim>\<open>fp.Seek(off, 0)\<close>: an absolute seek; it fails only when the script says so.\<close>

definition Seek :: "reader \<Rightarrow> nat \<Rightarrow> error option \<times> reader" where
  "Seek r off =
     (case script r of
        Fail e # es \<Rightarrow> (Some e, r\<lparr>script := es\<rparr>)
      | _ \<Rightarrow> (None, r\<lparr>pos := off\<rparr>))"

lemma Read_length: "Read r n = (bs, err, r') \<Longrightarrow> length bs \<le> n"
  by (auto simp: Read_def fileRead_def split: list.splits event.splits if_splits)

lemma Read_progress:
  assumes "Read r n = (bs, None, r')" and "0 < n"
  shows "length (script r') + (n - length bs) < length (script r) + n"
proof (cases "script r")
  case Nil
  with assms have "bs = take n (drop (pos r) (bytes r))" and "pos r < length (bytes r)"
    and "script r' = []"
    by (auto simp: Read_def fileRead_def split: if_splits)
  then have "0 < length bs" using assms(2) by simp
  with Nil \<open>script r' = []\<close> assms(2) show ?thesis by simp
next
  case (Cons ev es)
  with assms have "script r' = es"
    by (auto simp: Read_def fileRead_def split: event.splits if_splits)
  with Cons show ?thesis by simp
qed

text \<open>
  \<^verbatim>\<open>io.ReadFull\<close>, which \<^verbatim>\<open>binary.Read\<close> uses to fill its buffer: it calls
  \<^verbatim>\<open>Read\<close> until \<open>need\<close> more bytes have arrived or a call fails. A failure after some but
  not all bytes turns \<^verbatim>\<open>io.EOF\<close> into \<^verbatim>\<open>io.ErrUnexpectedEOF\<close>. \<open>acc\<close> holds the bytes
  read so far.
\<close>

function readFull :: "reader \<Rightarrow> nat \<Rightarrow> u8 list \<Rightarrow> u8 list \<times> error option \<times> reader" where
  "readFull r need acc =
     (if need = 0 then (acc, None, r)
      else case Read r need of
        (bs, None, r') \<Rightarrow> readFull r' (need - length bs) (acc @ bs)
      | (bs, Some e, r') \<Rightarrow>
          if need \<le> length bs then (acc @ bs, None, r')
          else (acc @ bs, Some (if acc @ bs \<noteq> [] \<and> e = EOF then ErrUnexpectedEOF else e), r'))"
  by pat_completeness auto
termination
  apply (relation "measure (\<lambda>(r, need, acc). length (script r) + need)")
   apply simp
  apply (auto dest: Read_progress [OF sym])
  done

declare readFull.simps [simp del]

text \<open>Little-endian decoding, as \<^verbatim>\<open>binary.LittleEndian.Uint16\<close> and \<^verbatim>\<open>Uint32\<close>.\<close>

definition le16 :: "u8 list \<Rightarrow> u16" where
  "le16 bs = ucast (bs ! 0) OR push_bit 8 (ucast (bs ! 1))"

definition le32 :: "u8 list \<Rightarrow> u32" where
  "le32 bs = ucast (bs ! 0) OR push_bit 8 (ucast (bs ! 1))
               OR push_bit 16 (ucast (bs ! 2)) OR push_bit 24 (ucast (bs ! 3))"

text \<open>
  \<^verbatim>\<open>binary.Read(fp, binary.LittleEndian, &x)\<close> for a \<^verbatim>\<open>uint32\<close>: four bytes through
  \<^verbatim>\<open>io.ReadFull\<close>; on an error \<^verbatim>\<open>x\<close> keeps its zero value.
\<close>

definition readUint32 :: "reader \<Rightarrow> u32 \<times> error option \<times> reader" where
  "readUint32 r =
     (case readFull r 4 [] of
        (bs, Some e, r') \<Rightarrow> (0, Some e, r')
      | (bs, None, r') \<Rightarrow> (le32 bs, None, r'))"

subsection \<open>\<^verbatim>\<open>isPlaceHolder\<close> (lines 197 to 211)\<close>

text \<open>
  \<open>i\<close> is a slot index of the table, so it is a natural number; the comparison with
  \<^verbatim>\<open>len(tab)-1\<close> is made on integers, as in Go, where it is \<open>-1\<close> for the empty table.
  The subtraction \<^verbatim>\<open>tab[i+1] - 1\<close> is on \<^verbatim>\<open>uint32\<close> and wraps. The loader calls the
  function with \<open>i < length tab\<close> only, where \<^verbatim>\<open>tab[i+1]\<close> is read in range. For an
  index past the table Go panics at that read; the model leaves its value open there, and
  every property below is stated for \<open>i < length tab\<close>.
\<close>

definition isPlaceHolder :: "u32 list \<Rightarrow> u32 \<Rightarrow> nat \<Rightarrow> bool" where
  "isPlaceHolder tab offset i =
     (if offset = 0x0 \<or> offset = 0xFFFFFFFF then True
      else if int i = int (length tab) - 1 then False
      else if offset = tab ! (i + 1) - 1 then True
      else False)"

subsection \<open>\<^verbatim>\<open>readByte\<close> and \<^verbatim>\<open>readShort\<close> (lines 213 to 227)\<close>

definition readByte :: "reader \<Rightarrow> u8 \<times> error option \<times> reader" where
  "readByte reader =
     (case Read reader 1 of
        (b, err, reader') \<Rightarrow>
          if length b \<noteq> 1 \<or> err \<noteq> None then (0, err, reader')
          else (b ! 0, None, reader'))"

definition readShort :: "reader \<Rightarrow> u16 \<times> error option \<times> reader" where
  "readShort reader =
     (case readFull reader 2 [] of
        (bs, Some e, reader') \<Rightarrow> (0, Some e, reader')
      | (bs, None, reader') \<Rightarrow> (le16 bs, None, reader'))"

subsection \<open>\<^verbatim>\<open>uncompressData\<close> (lines 235 to 292)\<close>

text \<open>
  The local variables of one call: the 4096-byte dictionary \<^verbatim>\<open>buffer\<close>, the bytes written
  through \<^verbatim>\<open>writer\<close> into \<^verbatim>\<open>backingBuffer\<close> (\<open>out\<close>; the writes go to memory and cannot
  fail), the two counters, and the stream. The counters start at 0 and only grow, so they
  are natural numbers; \<^verbatim>\<open>fileSize\<close> and \<^verbatim>\<open>dataSize\<close> are Go \<^verbatim>\<open>int\<close>s and may be
  negative. The 64-bit range of \<^verbatim>\<open>int\<close> is not modelled: a counter would have to pass
  \<open>2 ^ 63\<close> to leave it.
\<close>

record dstate =
  buffer :: "u8 list"
  out :: "u8 list"
  numWrite :: nat
  numRead :: nat
  rdr :: reader

abbreviation bufferSize :: nat where
  "bufferSize \<equiv> 4096"

text \<open>
  The copy loop of a back-reference (lines 278 to 284). \<^verbatim>\<open>m\<close>, \<^verbatim>\<open>numBytes\<close> and
  \<^verbatim>\<open>offset\<close> are \<^verbatim>\<open>uint16\<close> in the source; \<^verbatim>\<open>numBytes\<close> is at most 15 and
  \<^verbatim>\<open>offset\<close> at most 4095 (lemma \<open>short_parts\<close> below), so \<^verbatim>\<open>numBytes+2\<close>,
  \<^verbatim>\<open>offset+m\<close> and \<^verbatim>\<open>m++\<close> never wrap and natural numbers compute the same values.
\<close>

function copyLoop :: "nat \<Rightarrow> nat \<Rightarrow> nat \<Rightarrow> dstate \<Rightarrow> dstate" where
  "copyLoop m numBytes offset st =
     (if m \<le> numBytes + 2 then
        (let bufByte = buffer st ! ((offset + m) mod bufferSize) in
         copyLoop (m + 1) numBytes offset
           (st\<lparr>buffer := (buffer st)[numWrite st mod bufferSize := bufByte],
               out := out st @ [bufByte],
               numWrite := numWrite st + 1\<rparr>))
      else st)"
  by pat_completeness auto
termination
  by (relation "measure (\<lambda>(m, numBytes, offset, st). numBytes + 3 - m)") auto

declare copyLoop.simps [simp del]

text \<open>
  The loop over the eight bits of a control byte (lines 255 to 287). An error return hands
  back the state at that point: the caller takes \<^verbatim>\<open>buffer\<close> from it (lines 261 and 272).
\<close>

function bitLoop :: "int \<Rightarrow> nat \<Rightarrow> u8 \<Rightarrow> dstate \<Rightarrow> error option \<times> dstate" where
  "bitLoop fileSize i cmask st =
     (if i < 8 \<and> int (numWrite st) \<noteq> fileSize then
        (if cmask mod 2 = 1 then
           (case readByte (rdr st) of
              (bufByte, err, reader') \<Rightarrow>
                (let st1 = st\<lparr>numRead := numRead st + 1, rdr := reader'\<rparr> in
                 if err \<noteq> None then (err, st1)
                 else bitLoop fileSize (i + 1) (cmask div 2)
                        (st1\<lparr>buffer := (buffer st1)[numWrite st1 mod bufferSize := bufByte],
                             out := out st1 @ [bufByte],
                             numWrite := numWrite st1 + 1\<rparr>)))
         else
           (case readShort (rdr st) of
              (offset, err, reader') \<Rightarrow>
                (let st1 = st\<lparr>numRead := numRead st + 2, rdr := reader'\<rparr> in
                 if err \<noteq> None then (err, st1)
                 else bitLoop fileSize (i + 1) (cmask div 2)
                        (copyLoop 0 (unat offset div bufferSize) (unat offset mod bufferSize) st1))))
      else (None, st))"
  by pat_completeness auto
termination
  by (relation "measure (\<lambda>(fileSize, i, cmask, st). 8 - i)") auto

declare bitLoop.simps [simp del]

lemma copyLoop_numRead: "numRead (copyLoop m numBytes offset st) = numRead st"
  by (induction m numBytes offset st rule: copyLoop.induct)
     (subst copyLoop.simps, simp add: Let_def)

lemma bitLoop_numRead: "bitLoop fileSize i cmask st = (err, st') \<Longrightarrow> numRead st \<le> numRead st'"
proof (induction fileSize i cmask st rule: bitLoop.induct)
  case (1 fileSize i cmask st)
  show ?case
  proof (cases "i < 8 \<and> int (numWrite st) \<noteq> fileSize")
    case False
    with "1.prems" show ?thesis by (simp add: bitLoop.simps)
  next
    case True
    show ?thesis
    proof (cases "cmask mod 2 = 1")
      case lit: True
      obtain b e r' where rb: "readByte (rdr st) = (b, e, r')" by (cases "readByte (rdr st)")
      show ?thesis
      proof (cases e)
        case None
        then have ne: "\<not> e \<noteq> None" by simp
        from "1.IH"(1) [OF True lit rb [symmetric] refl refl ne] None "1.prems" True lit rb
        show ?thesis by (simp add: bitLoop.simps [of fileSize i cmask st] Let_def)
      next
        case (Some a)
        with "1.prems" True lit rb show ?thesis
          by (auto simp: bitLoop.simps [of fileSize i cmask st] Let_def)
      qed
    next
      case ref: False
      obtain w e r' where rs: "readShort (rdr st) = (w, e, r')" by (cases "readShort (rdr st)")
      show ?thesis
      proof (cases e)
        case None
        then have ne: "\<not> e \<noteq> None" by simp
        from "1.IH"(2) [OF True ref rs [symmetric] refl refl ne] None "1.prems" True ref rs
        show ?thesis
          by (simp add: bitLoop.simps [of fileSize i cmask st] Let_def copyLoop_numRead)
      next
        case (Some a)
        with "1.prems" True ref rs show ?thesis
          by (auto simp: bitLoop.simps [of fileSize i cmask st] Let_def)
      qed
    qed
  qed
qed

text \<open>The loop over the control bytes (lines 247 to 288), bounded by \<^verbatim>\<open>dataSize\<close>.\<close>

function outerLoop :: "int \<Rightarrow> int \<Rightarrow> dstate \<Rightarrow> error option \<times> dstate" where
  "outerLoop fileSize dataSize st =
     (if int (numRead st) < dataSize then
        (case readByte (rdr st) of
           (cmask, err, reader') \<Rightarrow>
             (let st1 = st\<lparr>numRead := numRead st + 1, rdr := reader'\<rparr> in
              if err \<noteq> None then (err, st1)
              else (case bitLoop fileSize 0 cmask st1 of
                      (Some e, st2) \<Rightarrow> (Some e, st2)
                    | (None, st2) \<Rightarrow> outerLoop fileSize dataSize st2)))
      else (None, st))"
  by pat_completeness auto
termination
  apply (relation "measure (\<lambda>(fileSize, dataSize, st). nat (dataSize - int (numRead st)))")
   apply simp
  apply (auto dest!: bitLoop_numRead [OF sym])
  done

declare outerLoop.simps [simp del]

text \<open>
  The function itself: the dictionary is allocated (Go zeroes it), the loop runs, and the
  result is \<^verbatim>\<open>(buffer, err)\<close> on an error and \<^verbatim>\<open>(backingBuffer.Bytes(), nil)\<close> after the
  flush. The third component is the stream as the call leaves it.
\<close>

definition uncompressData :: "reader \<Rightarrow> int \<Rightarrow> int \<Rightarrow> u8 list \<times> error option \<times> reader" where
  "uncompressData reader fileSize dataSize =
     (case outerLoop fileSize dataSize
             \<lparr>buffer = replicate bufferSize 0, out = [], numWrite = 0, numRead = 0, rdr = reader\<rparr> of
        (Some e, st) \<Rightarrow> (buffer st, Some e, rdr st)
      | (None, st) \<Rightarrow> (out st, None, rdr st))"

subsection \<open>\<^verbatim>\<open>OpenArchiveFrom\<close> (lines 89 to 195)\<close>

record Archive =
  Type :: string
  Files :: "string \<rightharpoonup> u8 list"

definition dosRetail :: "u8 list" where
  "dosRetail = [0x18, 0x0, 0x0, 0x0]"

definition dosShareware :: "u8 list" where
  "dosShareware = [0x19, 0x0, 0x0, 0x0]"

definition macRetail :: "u8 list" where
  "macRetail = [0x0, 0x0, 0x0, 0x1A]"

definition macShareware :: "u8 list" where
  "macShareware = [0x0, 0x0, 0x0, 0x19]"

text \<open>
  The two nested switches on \<^verbatim>\<open>archiveID\<close> (lines 102 to 117): the label stored in
  \<^verbatim>\<open>arch.Type\<close>, and the error of the \<^verbatim>\<open>return\<close> that the branch runs into, if any.
  A Mac magic stores its label and then leaves the outer \<^verbatim>\<open>default\<close> branch through
  \<^verbatim>\<open>return nil, ErrUnsupportedVersion\<close>; any other unknown magic returns from the inner
  \<^verbatim>\<open>default\<close> with \<^verbatim>\<open>arch.Type\<close> still empty.
\<close>

definition archiveType :: "u8 list \<Rightarrow> string \<times> error option" where
  "archiveType archiveID =
     (if archiveID = dosRetail then (''DOS Retail'', None)
      else if archiveID = dosShareware then (''DOS Shareware'', None)
      else if archiveID = macRetail then (''Mac Retail'', Some ErrUnsupportedVersion)
      else if archiveID = macShareware then (''Mac Shareware'', Some ErrUnsupportedVersion)
      else ([], Some ErrUnknownVersion))"

text \<open>The loop that fills the file table (lines 130 to 135).\<close>

function readFileTable :: "u32 list \<Rightarrow> nat \<Rightarrow> reader \<Rightarrow> u32 list \<times> error option \<times> reader" where
  "readFileTable fileTable i fp =
     (if i < length fileTable then
        (case readUint32 fp of
           (x, Some e, fp') \<Rightarrow> (fileTable, Some e, fp')
         | (x, None, fp') \<Rightarrow> readFileTable (fileTable[i := x]) (i + 1) fp')
      else (fileTable, None, fp))"
  by pat_completeness auto
termination
  by (relation "measure (\<lambda>(fileTable, i, fp). length fileTable - i)") auto

declare readFileTable.simps [simp del]

text \<open>
  Lines 95 to 135: the magic, the number of files and the file table. \<^verbatim>\<open>fileMap\<close>, the
  manifest of file names, is a package variable declared in another file of the package; it
  is a parameter here. \<^verbatim>\<open>archiveID\<close> is a zeroed array of four bytes of which
  \<^verbatim>\<open>fp.Read\<close> fills the front. The result is the error of an early \<^verbatim>\<open>return nil, err\<close>,
  or the label, the table and the stream with which the loop over the slots starts.
\<close>

definition readHeader :: "string list \<Rightarrow> reader \<Rightarrow> error + string \<times> u32 list \<times> reader" where
  "readHeader fileMap fp =
     (case Read fp 4 of
        (bs, Some e, fp1) \<Rightarrow> Inl e
      | (bs, None, fp1) \<Rightarrow>
          (case archiveType (bs @ replicate (4 - length bs) 0) of
             (ty, Some e) \<Rightarrow> Inl e
           | (ty, None) \<Rightarrow>
               (case readUint32 fp1 of
                  (numFiles, Some e, fp2) \<Rightarrow> Inl e
                | (numFiles, None, fp2) \<Rightarrow>
                    if unat numFiles \<noteq> length fileMap then Inl ErrTableMismatch
                    else (case readFileTable (replicate (unat numFiles) 0) 0 fp2 of
                            (fileTable, Some e, fp3) \<Rightarrow> Inl e
                          | (fileTable, None, fp3) \<Rightarrow> Inr (ty, fileTable, fp3)))))"

text \<open>
  Lines 156 and 157: the compression flag and the decoded size, from the header word of a
  slot.
\<close>

definition isCompressed :: "u32 \<Rightarrow> bool" where
  "isCompressed size' = (drop_bit 24 size' = 0x20)"

definition entrySize :: "u32 \<Rightarrow> u32" where
  "entrySize size' = size' AND 0x00FFFFFF"

text \<open>
  Lines 159 to 165: the length of the payload in the container. \<^verbatim>\<open>sz\<close> is an
  \<^verbatim>\<open>int64\<close>, which \<^verbatim>\<open>uint32(sz)\<close> truncates.
\<close>

definition dataLength :: "u32 list \<Rightarrow> int \<Rightarrow> nat \<Rightarrow> u32" where
  "dataLength fileTable sz i =
     (if int i = int (length fileTable) - 1 then word_of_int sz - fileTable ! i
      else fileTable ! (i + 1) - fileTable ! i) - 4"

text \<open>
  \<^verbatim>\<open>fmt.Sprintf("%v", i)\<close> for an index \<open>i\<close>: its decimal digits.
\<close>

function fmtInt :: "nat \<Rightarrow> string" where
  "fmtInt n =
     (if n < 10 then [''0123456789'' ! n]
      else fmtInt (n div 10) @ [''0123456789'' ! (n mod 10)])"
  by pat_completeness auto
termination
  by (relation "measure (\<lambda>n. n)") auto

declare fmtInt.simps [simp del]

text \<open>
  The body of the loop over the slots (lines 138 to 191) for slot \<open>i\<close>: \<open>Next\<close> is the
  end of the iteration (through \<^verbatim>\<open>continue\<close> or past line 191) with the map of files and
  the stream as they are then, \<open>Abort err\<close> is \<^verbatim>\<open>return nil, err\<close>.
  \<^verbatim>\<open>LoadUnsupported\<close> is a package variable and a parameter here. The log messages have
  no effect on the result and are left out. Go's \<^verbatim>\<open>int\<close> is taken to be 64 bits wide, so
  \<^verbatim>\<open>int(size)\<close> and \<^verbatim>\<open>int(dataLength)\<close> are the values of the unsigned words.
\<close>

datatype step = Abort "error option" | Next "string \<rightharpoonup> u8 list" reader

definition loadSlot ::
  "string list \<Rightarrow> bool \<Rightarrow> int \<Rightarrow> u32 list \<Rightarrow> nat \<Rightarrow> reader \<Rightarrow> (string \<rightharpoonup> u8 list) \<Rightarrow> step" where
  "loadSlot fileMap LoadUnsupported sz fileTable i fp files =
     (if isPlaceHolder fileTable (fileTable ! i) i then Next files fp
      else case Seek fp (unat (fileTable ! i)) of
        (Some e, fp1) \<Rightarrow> Abort (Some e)
      | (None, fp1) \<Rightarrow>
          (case readUint32 fp1 of
             (size', Some e, fp2) \<Rightarrow> Abort (Some e)
           | (size', None, fp2) \<Rightarrow>
               if fileMap ! i = [] \<and> \<not> LoadUnsupported then Next files fp2
               else
                 (let fileName = (if fileMap ! i = [] then ''DATA.WAR.'' @ fmtInt i
                                  else fileMap ! i)
                  in if isCompressed size' then
                       (case uncompressData fp2 (int (unat (entrySize size')))
                               (int (unat (dataLength fileTable sz i))) of
                          (data, Some e, fp3) \<Rightarrow> Abort (Some e)
                        | (data, None, fp3) \<Rightarrow> Next (files(fileName \<mapsto> data)) fp3)
                     else
                       (case Read fp2 (unat (entrySize size')) of
                          (data, err, fp3) \<Rightarrow>
                            if length data \<noteq> unat (entrySize size') \<or> err \<noteq> None then Abort err
                            else Next (files(fileName \<mapsto> data)) fp3))))"

text \<open>The loop over the slots (lines 137 to 192) and the final \<^verbatim>\<open>return arch, nil\<close>.\<close>

function loadEntries ::
  "string list \<Rightarrow> bool \<Rightarrow> int \<Rightarrow> u32 list \<Rightarrow> nat \<Rightarrow> reader \<Rightarrow> Archive
     \<Rightarrow> Archive option \<times> error option" where
  "loadEntries fileMap LoadUnsupported sz fileTable i fp arch =
     (if i < length fileTable then
        (case loadSlot fileMap LoadUnsupported sz fileTable i fp (Files arch) of
           Abort err \<Rightarrow> (None, err)
         | Next files fp' \<Rightarrow>
             loadEntries fileMap LoadUnsupported sz fileTable (i + 1) fp' (arch\<lparr>Files := files\<rparr>))
      else (Some arch, None))"
  by pat_completeness auto
termination
  by (relation "measure (\<lambda>(fileMap, LoadUnsupported, sz, fileTable, i, fp, arch).
                           length fileTable - i)") auto

declare loadEntries.simps [simp del]

definition OpenArchiveFrom ::
  "string list \<Rightarrow> bool \<Rightarrow> reader \<Rightarrow> int \<Rightarrow> Archive option \<times> error option" where
  "OpenArchiveFrom fileMap LoadUnsupported fp sz =
     (case readHeader fileMap fp of
        Inl e \<Rightarrow> (None, Some e)
      | Inr (ty, fileTable, fp') \<Rightarrow>
          loadEntries fileMap LoadUnsupported sz fileTable 0 fp' \<lparr>Type = ty, Files = Map.empty\<rparr>)"

subsection \<open>Streams that deliver the same bytes\<close>

text \<open>
  Two streams deliver the same bytes when the content from the current position on and the
  script agree; what lies before the position is not read again by a call that does not
  seek. Two states of the decompressor are the same up to that when their dictionaries,
  outputs and counters are equal and their streams deliver the same bytes.
\<close>

definition sameInput :: "reader \<Rightarrow> reader \<Rightarrow> bool" where
  "sameInput r1 r2 \<longleftrightarrow>
     drop (pos r1) (bytes r1) = drop (pos r2) (bytes r2) \<and> script r1 = script r2"

definition sameState :: "dstate \<Rightarrow> dstate \<Rightarrow> bool" where
  "sameState s1 s2 \<longleftrightarrow>
     buffer s1 = buffer s2 \<and> out s1 = out s2 \<and> numWrite s1 = numWrite s2
     \<and> numRead s1 = numRead s2 \<and> sameInput (rdr s1) (rdr s2)"

section \<open>Properties\<close>

subsection \<open>Reading from a plain file\<close>

lemma readUint32_file:
  "script r = [] \<Longrightarrow> pos r + 4 \<le> length (bytes r) \<Longrightarrow>
   readUint32 r = (le32 (take 4 (drop (pos r) (bytes r))), None, r\<lparr>pos := pos r + 4\<rparr>)"
  by (simp add: readUint32_def readFull.simps [of r 4] readFull.simps [of _ 0] Read_def
      fileRead_def min_def)

subsection \<open>The header word and the payload length\<close>

lemma isCompressed_arith: "isCompressed h \<longleftrightarrow> unat h div 2 ^ 24 = 0x20"
proof -
  have "unat (drop_bit 24 h) = unat h div 2 ^ 24"
    by (simp add: drop_bit_eq_div unat_div_distrib)
  moreover have "(drop_bit 24 h = (0x20 :: u32)) \<longleftrightarrow> unat (drop_bit 24 h) = unat (0x20 :: u32)"
    by (simp only: word_unat_eq_iff)
  ultimately show ?thesis by (simp add: isCompressed_def)
qed

lemma entrySize_arith: "unat (entrySize h) = unat h mod 2 ^ 24"
proof -
  have "(0x00FFFFFF :: u32) = mask 24" by (simp add: mask_eq_exp_minus_1)
  then have "entrySize h = take_bit 24 h" by (simp add: entrySize_def take_bit_eq_mask)
  then show ?thesis by (simp add: take_bit_eq_mod unat_mod_distrib)
qed

lemma dataLength_arith:
  "uint (dataLength T sz i) =
     (if int i = int (length T) - 1 then (sz - uint (T ! i) - 4) mod 2 ^ 32
      else (uint (T ! (i + 1)) - uint (T ! i) - 4) mod 2 ^ 32)"
  by (simp add: dataLength_def uint_word_ariths uint_word_of_int mod_diff_left_eq
      mod_diff_right_eq)

text \<open>
  C3. For a present slot whose header word \<open>h\<close> was read at the slot's offset (and that is not
  dropped for its empty name), the loader takes the decompression path exactly when
  \<open>h >> 24 = 0x20\<close>, that is when the top byte of \<open>h\<close> is \<open>0x20\<close>, and on both paths the
  decoded size is \<open>h AND 0x00FFFFFF\<close>, the low 24 bits of \<open>h\<close>. The mask is not the
  \<open>0x1FFFFFFF\<close> of the comment at the top of the file: on the word \<open>0x01000005\<close> the code's
  size is 5 and the comment's mask leaves \<open>0x01000005\<close>.
\<close>

theorem header_word_decoding:
  assumes "\<not> isPlaceHolder T (T ! i) i"
    and "Seek fp (unat (T ! i)) = (None, fp1)"
    and "readUint32 fp1 = (h, None, fp2)"
    and "fileMap ! i \<noteq> [] \<or> lu"
    and "name = (if fileMap ! i = [] then ''DATA.WAR.'' @ fmtInt i else fileMap ! i)"
  shows "loadSlot fileMap lu sz T i fp files =
           (if drop_bit 24 h = (0x20 :: u32) then
              (case uncompressData fp2 (int (unat (h AND 0x00FFFFFF)))
                      (int (unat (dataLength T sz i))) of
                 (data, Some e, fp3) \<Rightarrow> Abort (Some e)
               | (data, None, fp3) \<Rightarrow> Next (files(name \<mapsto> data)) fp3)
            else
              (case Read fp2 (unat (h AND 0x00FFFFFF)) of
                 (data, err, fp3) \<Rightarrow>
                   if length data \<noteq> unat (h AND 0x00FFFFFF) \<or> err \<noteq> None then Abort err
                   else Next (files(name \<mapsto> data)) fp3))
       \<and> (drop_bit 24 h = (0x20 :: u32) \<longleftrightarrow> unat h div 2 ^ 24 = 0x20)
       \<and> unat (h AND 0x00FFFFFF) = unat h mod 2 ^ 24
       \<and> isCompressed h = (drop_bit 24 h = 0x20) \<and> entrySize h = h AND 0x00FFFFFF
       \<and> entrySize 0x01000005 = 5 \<and> (0x01000005 :: u32) AND 0x1FFFFFFF = 0x01000005"
proof -
  have "loadSlot fileMap lu sz T i fp files =
           (if drop_bit 24 h = (0x20 :: u32) then
              (case uncompressData fp2 (int (unat (h AND 0x00FFFFFF)))
                      (int (unat (dataLength T sz i))) of
                 (data, Some e, fp3) \<Rightarrow> Abort (Some e)
               | (data, None, fp3) \<Rightarrow> Next (files(name \<mapsto> data)) fp3)
            else
              (case Read fp2 (unat (h AND 0x00FFFFFF)) of
                 (data, err, fp3) \<Rightarrow>
                   if length data \<noteq> unat (h AND 0x00FFFFFF) \<or> err \<noteq> None then Abort err
                   else Next (files(name \<mapsto> data)) fp3))"
    using assms by (auto simp: loadSlot_def isCompressed_def entrySize_def)
  moreover have "drop_bit 24 h = (0x20 :: u32) \<longleftrightarrow> unat h div 2 ^ 24 = 0x20"
    using isCompressed_arith [of h] by (simp add: isCompressed_def)
  moreover have "unat (h AND 0x00FFFFFF) = unat h mod 2 ^ 24"
    using entrySize_arith [of h] by (simp add: entrySize_def)
  moreover have "entrySize 0x01000005 = 5" "(0x01000005 :: u32) AND 0x1FFFFFFF = 0x01000005"
    by (simp_all add: entrySize_def)
  ultimately show ?thesis by (simp add: isCompressed_def entrySize_def)
qed

text \<open>
  The instance: a DOS retail archive of one slot at offset 12, whose header word 1 announces
  one raw byte, \<open>A\<close>.
\<close>

theorem header_word_decoding_witness:
  "loadSlot [''A''] False 17 [12] 0
     \<lparr>bytes = [0x18, 0, 0, 0, 1, 0, 0, 0, 12, 0, 0, 0, 1, 0, 0, 0, 65], pos = 8, script = []\<rparr>
     Map.empty
   = Next [''A'' \<mapsto> [65]]
       \<lparr>bytes = [0x18, 0, 0, 0, 1, 0, 0, 0, 12, 0, 0, 0, 1, 0, 0, 0, 65], pos = 17, script = []\<rparr>"
proof -
  let ?bs = "[0x18, 0, 0, 0, 1, 0, 0, 0, 12, 0, 0, 0, 1, 0, 0, 0, 65] :: u8 list"
  have h1: "\<not> isPlaceHolder [12] ([12] ! 0) 0" by (simp add: isPlaceHolder_def)
  have h2: "Seek \<lparr>bytes = ?bs, pos = 8, script = []\<rparr> (unat ([12 :: u32] ! 0))
              = (None, \<lparr>bytes = ?bs, pos = 12, script = []\<rparr>)"
    by (simp add: Seek_def)
  have h3: "readUint32 \<lparr>bytes = ?bs, pos = 12, script = []\<rparr>
              = (1, None, \<lparr>bytes = ?bs, pos = 16, script = []\<rparr>)"
    by (simp add: readUint32_file le32_def)
  have h4: "[''A''] ! 0 \<noteq> [] \<or> False" by simp
  from header_word_decoding [OF h1 h2 h3 h4 refl, of 17 Map.empty]
  show ?thesis by (simp add: Read_def fileRead_def)
qed

text \<open>
  C5. For a slot \<open>i\<close> of the table, the payload length that the loader computes is
  \<open>offset[i+1] - offset[i] - 4\<close> when \<open>i\<close> is not the last index and
  \<open>uint32(sz) - offset[i] - 4\<close> when it is, in unsigned 32-bit arithmetic: as integers, the
  differences modulo \<open>2 ^ 32\<close>.
\<close>

theorem payload_length:
  assumes "i < length T"
  shows "(i \<noteq> length T - 1 \<longrightarrow>
            dataLength T sz i = T ! (i + 1) - T ! i - 4
          \<and> uint (dataLength T sz i) = (uint (T ! (i + 1)) - uint (T ! i) - 4) mod 2 ^ 32)
       \<and> (i = length T - 1 \<longrightarrow>
            dataLength T sz i = word_of_int sz - T ! i - 4
          \<and> uint (dataLength T sz i) = (sz - uint (T ! i) - 4) mod 2 ^ 32)"
proof (cases "i = length T - 1")
  case True
  with assms have "int i = int (length T) - 1" by auto
  with True show ?thesis using dataLength_arith [of T sz i] by (simp add: dataLength_def)
next
  case False
  with assms have "int i \<noteq> int (length T) - 1" by auto
  with False show ?thesis using dataLength_arith [of T sz i] by (simp add: dataLength_def)
qed

theorem payload_length_witness:
  "dataLength [16, 21] 26 0 = 1 \<and> dataLength [16, 21] 26 1 = 1
   \<and> dataLength [16, 21] 3 1 = 0xFFFFFFEA
   \<and> uint (dataLength [16, 21] 3 1) = (3 - 21 - 4) mod 2 ^ 32"
  using payload_length [of 0 "[16, 21]" 26] payload_length [of 1 "[16, 21]" 26]
    payload_length [of 1 "[16, 21]" 3]
  by simp

subsection \<open>Placeholders\<close>

text \<open>
  C4. For a file table \<open>T\<close> and a slot \<open>i\<close> of it with offset \<open>T ! i\<close>: the slot is a
  placeholder when the offset is \<open>0\<close> or \<open>0xFFFFFFFF\<close>; otherwise the last slot is present;
  otherwise the slot is a placeholder exactly when its offset is \<open>T ! (i + 1) - 1\<close>.
\<close>

theorem isPlaceHolder_rule:
  assumes "i < length T"
  shows "(T ! i = 0 \<or> T ! i = 0xFFFFFFFF \<longrightarrow> isPlaceHolder T (T ! i) i)
       \<and> (T ! i \<noteq> 0 \<and> T ! i \<noteq> 0xFFFFFFFF \<and> i = length T - 1 \<longrightarrow>
            \<not> isPlaceHolder T (T ! i) i)
       \<and> (T ! i \<noteq> 0 \<and> T ! i \<noteq> 0xFFFFFFFF \<and> i \<noteq> length T - 1 \<longrightarrow>
            (isPlaceHolder T (T ! i) i \<longleftrightarrow> T ! i = T ! (i + 1) - 1))"
proof (cases "i = length T - 1")
  case True
  with assms have "int i = int (length T) - 1" by auto
  with True show ?thesis by (simp add: isPlaceHolder_def)
next
  case False
  with assms have "int i \<noteq> int (length T) - 1" by auto
  with False show ?thesis by (simp add: isPlaceHolder_def)
qed

theorem isPlaceHolder_rule_witness:
  "isPlaceHolder [0, 0xFFFFFFFF, 20, 19, 20] 0 0
   \<and> isPlaceHolder [0, 0xFFFFFFFF, 20, 19, 20] 0xFFFFFFFF 1
   \<and> \<not> isPlaceHolder [0, 0xFFFFFFFF, 20, 19, 20] 20 2
   \<and> isPlaceHolder [0, 0xFFFFFFFF, 20, 19, 20] 19 3
   \<and> \<not> isPlaceHolder [0, 0xFFFFFFFF, 20, 19, 20] 20 4"
  using isPlaceHolder_rule [of 0 "[0, 0xFFFFFFFF, 20, 19, 20]"]
    isPlaceHolder_rule [of 1 "[0, 0xFFFFFFFF, 20, 19, 20]"]
    isPlaceHolder_rule [of 2 "[0, 0xFFFFFFFF, 20, 19, 20]"]
    isPlaceHolder_rule [of 3 "[0, 0xFFFFFFFF, 20, 19, 20]"]
    isPlaceHolder_rule [of 4 "[0, 0xFFFFFFFF, 20, 19, 20]"]
  by simp

subsection \<open>Reading single bytes\<close>

text \<open>
  C9. When the \<^verbatim>\<open>Read\<close> call of the underlying reader returns no byte and a nil error,
  \<^verbatim>\<open>readByte\<close> returns \<open>(0, nil)\<close>: it reports success with the byte 0. The decompressor
  then goes on with that byte: where it expects a literal, it writes a 0 to the dictionary
  and to the output and counts one byte read and one written.
\<close>

theorem readByte_zero_read:
  assumes "Read reader 1 = ([], None, reader')"
  shows "readByte reader = (0, None, reader')
       \<and> (\<forall>fileSize i cmask st. rdr st = reader \<and> i < 8 \<and> int (numWrite st) \<noteq> fileSize \<and> cmask mod 2 = 1 \<longrightarrow>
            bitLoop fileSize i cmask st =
              bitLoop fileSize (i + 1) (cmask div 2)
                (st\<lparr>buffer := (buffer st)[numWrite st mod bufferSize := 0],
                    out := out st @ [0],
                    numWrite := numWrite st + 1,
                    numRead := numRead st + 1,
                    rdr := reader'\<rparr>))"
proof -
  from assms have rb: "readByte reader = (0, None, reader')" by (simp add: readByte_def)
  then show ?thesis
    by (auto simp: bitLoop.simps [of _ _ _ "st :: dstate" for st] Let_def)
qed

text \<open>The instance: a stream whose next read delivers nothing, and a literal step on it.\<close>

theorem readByte_zero_read_witness:
  "Read \<lparr>bytes = [7], pos = 0, script = [Deliver 0]\<rparr> 1 = ([], None, \<lparr>bytes = [7], pos = 0, script = []\<rparr>)
   \<and> readByte \<lparr>bytes = [7], pos = 0, script = [Deliver 0]\<rparr> = (0, None, \<lparr>bytes = [7], pos = 0, script = []\<rparr>)
   \<and> fst (bitLoop 1 0 1 \<lparr>buffer = replicate bufferSize 0, out = [], numWrite = 0, numRead = 1,
                rdr = \<lparr>bytes = [7], pos = 0, script = [Deliver 0]\<rparr>\<rparr>) = None
   \<and> out (snd (bitLoop 1 0 1 \<lparr>buffer = replicate bufferSize 0, out = [], numWrite = 0, numRead = 1,
                rdr = \<lparr>bytes = [7], pos = 0, script = [Deliver 0]\<rparr>\<rparr>)) = [0]"
proof -
  have h: "Read \<lparr>bytes = [7], pos = 0, script = [Deliver 0]\<rparr> 1
             = ([], None, \<lparr>bytes = [7], pos = 0, script = []\<rparr>)"
    by (simp add: Read_def fileRead_def)
  from h readByte_zero_read [OF h] show ?thesis
    by (simp add: bitLoop.simps [of 1 "Suc 0"])
qed

subsection \<open>The variant of the archive\<close>

lemma loadEntries_Type:
  "loadEntries fileMap lu sz T i fp arch = (Some arch', err) \<Longrightarrow> Type arch' = Type arch"
proof (induction fileMap lu sz T i fp arch rule: loadEntries.induct)
  case (1 fileMap lu sz T i fp arch)
  show ?case
  proof (cases "i < length T")
    case False
    with "1.prems" show ?thesis by (simp add: loadEntries.simps)
  next
    case True
    show ?thesis
    proof (cases "loadSlot fileMap lu sz T i fp (Files arch)")
      case (Abort e)
      with True "1.prems" show ?thesis by (simp add: loadEntries.simps [of _ _ _ _ i])
    next
      case (Next files fp')
      with True "1.prems" "1.IH" [OF True Next] show ?thesis
        by (simp add: loadEntries.simps [of _ _ _ _ i])
    qed
  qed
qed

text \<open>
  C6. When the first read delivers the four bytes \<open>m\<close> of the magic: for each of the four
  known magics the switch assigns the matching label; for the two DOS magics the load goes
  on and an archive that it returns carries the label; for the two Mac magics the load fails
  with \<^verbatim>\<open>ErrUnsupportedVersion\<close> whatever follows in the stream; for any other four bytes
  it fails with the "unknown version" error.
\<close>

theorem variant_detection:
  assumes "Read fp 4 = (m, None, fp1)" and "length m = 4"
  shows "(m = dosRetail \<longrightarrow> fst (archiveType m) = ''DOS Retail''
            \<and> (\<forall>arch err. OpenArchiveFrom fileMap lu fp sz = (Some arch, err) \<longrightarrow> Type arch = ''DOS Retail''))
       \<and> (m = dosShareware \<longrightarrow> fst (archiveType m) = ''DOS Shareware''
            \<and> (\<forall>arch err. OpenArchiveFrom fileMap lu fp sz = (Some arch, err) \<longrightarrow> Type arch = ''DOS Shareware''))
       \<and> (m = macRetail \<longrightarrow> fst (archiveType m) = ''Mac Retail''
            \<and> OpenArchiveFrom fileMap lu fp sz = (None, Some ErrUnsupportedVersion))
       \<and> (m = macShareware \<longrightarrow> fst (archiveType m) = ''Mac Shareware''
            \<and> OpenArchiveFrom fileMap lu fp sz = (None, Some ErrUnsupportedVersion))
       \<and> (m \<noteq> dosRetail \<and> m \<noteq> dosShareware \<and> m \<noteq> macRetail \<and> m \<noteq> macShareware \<longrightarrow>
            OpenArchiveFrom fileMap lu fp sz = (None, Some ErrUnknownVersion))"
proof -
  have dos: "Type arch = ty"
    if "archiveType m = (ty, None)" and "OpenArchiveFrom fileMap lu fp sz = (Some arch, err)"
    for ty arch err
    using that assms
    by (auto simp: OpenArchiveFrom_def readHeader_def split: prod.splits option.splits if_splits sum.splits
        dest: loadEntries_Type)
  have a1: "archiveType dosRetail = (''DOS Retail'', None)"
    by (simp add: archiveType_def)
  have a2: "archiveType dosShareware = (''DOS Shareware'', None)"
    by (simp add: archiveType_def dosRetail_def dosShareware_def)
  have a3: "archiveType macRetail = (''Mac Retail'', Some ErrUnsupportedVersion)"
    by (simp add: archiveType_def dosRetail_def dosShareware_def macRetail_def)
  have a4: "archiveType macShareware = (''Mac Shareware'', Some ErrUnsupportedVersion)"
    by (simp add: archiveType_def dosRetail_def dosShareware_def macRetail_def macShareware_def)
  have a5: "archiveType m = ([], Some ErrUnknownVersion)"
    if "m \<noteq> dosRetail \<and> m \<noteq> dosShareware \<and> m \<noteq> macRetail \<and> m \<noteq> macShareware"
    using that by (simp add: archiveType_def)
  have fail: "OpenArchiveFrom fileMap lu fp sz = (None, Some e)" if "archiveType m = (ty, Some e)" for ty e
    using that assms by (simp add: OpenArchiveFrom_def readHeader_def)
  have c1: "fst (archiveType m) = ''DOS Retail''
            \<and> (\<forall>arch err. OpenArchiveFrom fileMap lu fp sz = (Some arch, err) \<longrightarrow> Type arch = ''DOS Retail'')"
    if "m = dosRetail"
    using dos [of "''DOS Retail''"] a1 that by simp
  have c2: "fst (archiveType m) = ''DOS Shareware''
            \<and> (\<forall>arch err. OpenArchiveFrom fileMap lu fp sz = (Some arch, err) \<longrightarrow> Type arch = ''DOS Shareware'')"
    if "m = dosShareware"
    using dos [of "''DOS Shareware''"] a2 that by simp
  have c3: "fst (archiveType m) = ''Mac Retail''
            \<and> OpenArchiveFrom fileMap lu fp sz = (None, Some ErrUnsupportedVersion)"
    if "m = macRetail"
    using fail [of "''Mac Retail''" ErrUnsupportedVersion] a3 that by simp
  have c4: "fst (archiveType m) = ''Mac Shareware''
            \<and> OpenArchiveFrom fileMap lu fp sz = (None, Some ErrUnsupportedVersion)"
    if "m = macShareware"
    using fail [of "''Mac Shareware''" ErrUnsupportedVersion] a4 that by simp
  have c5: "OpenArchiveFrom fileMap lu fp sz = (None, Some ErrUnknownVersion)"
    if "m \<noteq> dosRetail \<and> m \<noteq> dosShareware \<and> m \<noteq> macRetail \<and> m \<noteq> macShareware"
    using fail [OF a5 [OF that]] .
  from c1 c2 c3 c4 c5 show ?thesis by blast
qed

text \<open>
  The instances: the two Mac magics, an unknown magic, and the two DOS magics in front of
  an empty file table.
\<close>

theorem variant_detection_witness:
  "OpenArchiveFrom [] False \<lparr>bytes = [0, 0, 0, 0x1A], pos = 0, script = []\<rparr> 4
     = (None, Some ErrUnsupportedVersion)
   \<and> OpenArchiveFrom [] False \<lparr>bytes = [0, 0, 0, 0x19], pos = 0, script = []\<rparr> 4
     = (None, Some ErrUnsupportedVersion)
   \<and> OpenArchiveFrom [] False \<lparr>bytes = [0x17, 0, 0, 0], pos = 0, script = []\<rparr> 4
     = (None, Some ErrUnknownVersion)
   \<and> (\<exists>arch. OpenArchiveFrom [] False \<lparr>bytes = [0x18, 0, 0, 0, 0, 0, 0, 0], pos = 0, script = []\<rparr> 8
                = (Some arch, None) \<and> Type arch = ''DOS Retail'')
   \<and> (\<exists>arch. OpenArchiveFrom [] False \<lparr>bytes = [0x19, 0, 0, 0, 0, 0, 0, 0], pos = 0, script = []\<rparr> 8
                = (Some arch, None) \<and> Type arch = ''DOS Shareware'')"
proof -
  have r: "Read \<lparr>bytes = a # b # c # d # bs, pos = 0, script = []\<rparr> 4
             = ([a, b, c, d], None, \<lparr>bytes = a # b # c # d # bs, pos = 4, script = []\<rparr>)"
    for a b c d bs
    by (simp add: Read_def fileRead_def)
  have a1: "OpenArchiveFrom [] False \<lparr>bytes = [0x18, 0, 0, 0, 0, 0, 0, 0], pos = 0, script = []\<rparr> 8
                = (Some \<lparr>Type = ''DOS Retail'', Files = Map.empty\<rparr>, None)"
    by (simp add: OpenArchiveFrom_def readHeader_def r archiveType_def dosRetail_def
        readUint32_file le32_def readFileTable.simps [of "[]"] loadEntries.simps [of _ _ _ "[]"])
  have a2: "OpenArchiveFrom [] False \<lparr>bytes = [0x19, 0, 0, 0, 0, 0, 0, 0], pos = 0, script = []\<rparr> 8
                = (Some \<lparr>Type = ''DOS Shareware'', Files = Map.empty\<rparr>, None)"
    by (simp add: OpenArchiveFrom_def readHeader_def r archiveType_def dosRetail_def dosShareware_def
        readUint32_file le32_def readFileTable.simps [of "[]"] loadEntries.simps [of _ _ _ "[]"])
  have m1: "OpenArchiveFrom [] False \<lparr>bytes = [0, 0, 0, 0x1A], pos = 0, script = []\<rparr> 4
              = (None, Some ErrUnsupportedVersion)"
    using variant_detection [OF r [of 0 0 0 "0x1A" "[]"], of "[]" False 4]
    by (simp add: dosRetail_def dosShareware_def macRetail_def macShareware_def)
  have m2: "OpenArchiveFrom [] False \<lparr>bytes = [0, 0, 0, 0x19], pos = 0, script = []\<rparr> 4
              = (None, Some ErrUnsupportedVersion)"
    using variant_detection [OF r [of 0 0 0 "0x19" "[]"], of "[]" False 4]
    by (simp add: dosRetail_def dosShareware_def macRetail_def macShareware_def)
  have u: "OpenArchiveFrom [] False \<lparr>bytes = [0x17, 0, 0, 0], pos = 0, script = []\<rparr> 4
              = (None, Some ErrUnknownVersion)"
    using variant_detection [OF r [of "0x17" 0 0 0 "[]"], of "[]" False 4]
    by (simp add: dosRetail_def dosShareware_def macRetail_def macShareware_def)
  have d1: "Type \<lparr>Type = ''DOS Retail'', Files = Map.empty\<rparr> = ''DOS Retail''"
    using variant_detection [OF r [of "0x18" 0 0 0 "[0, 0, 0, 0]"], of "[]" False 8] a1
    by (simp add: dosRetail_def)
  have d2: "Type \<lparr>Type = ''DOS Shareware'', Files = Map.empty\<rparr> = ''DOS Shareware''"
    using variant_detection [OF r [of "0x19" 0 0 0 "[0, 0, 0, 0]"], of "[]" False 8] a2
    by (simp add: dosShareware_def)
  from m1 m2 u a1 a2 d1 d2 show ?thesis by simp
qed

subsection \<open>A short read of a raw payload\<close>

text \<open>
  C2. The claim fails on the code. The archive below has one slot, at offset 12, whose
  header word announces 5 raw bytes; one byte is left in the file. \<^verbatim>\<open>fp.Read\<close> returns
  that byte and a nil error, the test \<^verbatim>\<open>num != len(data) || err != nil\<close> of line 186 holds
  for the count alone, and line 187 returns the nil \<^verbatim>\<open>err\<close>: the caller gets a nil archive
  and a nil error.
\<close>

theorem short_read_nil_nil:
  "OpenArchiveFrom [''A''] False
     \<lparr>bytes = [0x18, 0, 0, 0, 1, 0, 0, 0, 12, 0, 0, 0, 5, 0, 0, 0, 65], pos = 0, script = []\<rparr> 17
   = (None, None)"
  by (simp add: OpenArchiveFrom_def readHeader_def Read_def fileRead_def archiveType_def
      dosRetail_def readUint32_file le32_def readFileTable.simps loadEntries.simps loadSlot_def
      isPlaceHolder_def Seek_def isCompressed_def entrySize_def)

subsection \<open>The keys of the archive\<close>

lemma readFileTable_length:
  "readFileTable T i fp = (T', err, fp') \<Longrightarrow> length T' = length T"
proof (induction T i fp rule: readFileTable.induct)
  case (1 fileTable i fp)
  show ?case
  proof (cases "i < length fileTable")
    case False
    with "1.prems" show ?thesis by (simp add: readFileTable.simps [of fileTable i])
  next
    case True
    obtain x e fp1 where ru: "readUint32 fp = (x, e, fp1)" by (cases "readUint32 fp")
    show ?thesis
    proof (cases e)
      case None
      with True ru "1.prems" "1.IH" [OF True ru [symmetric] refl None] show ?thesis
        by (simp add: readFileTable.simps [of fileTable i])
    next
      case (Some a)
      with True ru "1.prems" show ?thesis by (simp add: readFileTable.simps [of fileTable i])
    qed
  qed
qed

lemma readHeader_length:
  "readHeader fileMap fp = Inr (ty, T, fp') \<Longrightarrow> length T = length fileMap"
  by (auto simp: readHeader_def split: prod.splits option.splits if_splits
      dest!: readFileTable_length)

lemma loadSlot_placeholder:
  "isPlaceHolder T (T ! i) i \<Longrightarrow> loadSlot fileMap lu sz T i fp files = Next files fp"
  by (simp add: loadSlot_def)

lemma loadSlot_Next:
  assumes "loadSlot fileMap lu sz T i fp files = Next files' fp'"
  shows "files' = files
       \<or> (\<not> isPlaceHolder T (T ! i) i \<and> (fileMap ! i \<noteq> [] \<or> lu)
          \<and> (\<exists>data. files' = files((if fileMap ! i = [] then ''DATA.WAR.'' @ fmtInt i else fileMap ! i) \<mapsto> data)))"
  using assms
  by (auto simp: loadSlot_def Let_def split: if_splits prod.splits option.splits)

lemma loadEntries_keys:
  assumes "loadEntries fileMap lu sz T i fp arch = (Some arch', err)" and "k \<in> dom (Files arch')"
  shows "k \<in> dom (Files arch)
       \<or> (\<exists>j. i \<le> j \<and> j < length T \<and> \<not> isPlaceHolder T (T ! j) j
             \<and> (fileMap ! j \<noteq> [] \<and> k = fileMap ! j
                \<or> lu \<and> fileMap ! j = [] \<and> k = ''DATA.WAR.'' @ fmtInt j))"
  using assms
proof (induction fileMap lu sz T i fp arch rule: loadEntries.induct)
  case (1 fileMap lu sz T i fp arch)
  show ?case
  proof (cases "i < length T")
    case False
    with "1.prems" show ?thesis by (simp add: loadEntries.simps [of _ _ _ T i])
  next
    case True
    show ?thesis
    proof (cases "loadSlot fileMap lu sz T i fp (Files arch)")
      case (Abort e)
      with True "1.prems" show ?thesis by (simp add: loadEntries.simps [of _ _ _ T i])
    next
      case (Next files fp')
      with True "1.prems" have
        "loadEntries fileMap lu sz T (i + 1) fp' (arch\<lparr>Files := files\<rparr>) = (Some arch', err)"
        by (simp add: loadEntries.simps [of _ _ _ T i])
      from "1.IH" [OF True Next this "1.prems"(2)]
      consider "k \<in> dom files"
        | j where "i + 1 \<le> j" "j < length T" "\<not> isPlaceHolder T (T ! j) j"
            "fileMap ! j \<noteq> [] \<and> k = fileMap ! j
               \<or> lu \<and> fileMap ! j = [] \<and> k = ''DATA.WAR.'' @ fmtInt j"
        by auto
      then show ?thesis
      proof cases
        case 1
        from loadSlot_Next [OF Next] 1 True show ?thesis
          by (auto split: if_splits)
      next
        case 2
        then have "i \<le> j" by simp
        with 2 show ?thesis by blast
      qed
    qed
  qed
qed

text \<open>
  C10. After a successful load, with \<open>T\<close> the file table that the loader read: every key of
  the \<^verbatim>\<open>Files\<close> map is the non-empty manifest name of a slot classified present, or,
  only when \<^verbatim>\<open>LoadUnsupported\<close> is set, the name \<open>DATA.WAR.<i>\<close> of a present slot
  \<open>i\<close> whose manifest name is empty. A slot classified as a placeholder leaves the map as it
  is.
\<close>

theorem archive_keys:
  assumes "OpenArchiveFrom fileMap lu fp sz = (Some arch, err)"
  shows "\<exists>ty T fp'. readHeader fileMap fp = Inr (ty, T, fp') \<and> length T = length fileMap
           \<and> (\<forall>k \<in> dom (Files arch). \<exists>i < length T. \<not> isPlaceHolder T (T ! i) i
                  \<and> (fileMap ! i \<noteq> [] \<and> k = fileMap ! i
                     \<or> lu \<and> fileMap ! i = [] \<and> k = ''DATA.WAR.'' @ fmtInt i))
           \<and> (\<forall>i files fp1. isPlaceHolder T (T ! i) i \<longrightarrow>
                  loadSlot fileMap lu sz T i fp1 files = Next files fp1)"
proof -
  from assms obtain ty T fp' where rh: "readHeader fileMap fp = Inr (ty, T, fp')"
    and le: "loadEntries fileMap lu sz T 0 fp' \<lparr>Type = ty, Files = Map.empty\<rparr> = (Some arch, err)"
    by (auto simp: OpenArchiveFrom_def split: sum.splits)
  have "\<exists>i < length T. \<not> isPlaceHolder T (T ! i) i
                  \<and> (fileMap ! i \<noteq> [] \<and> k = fileMap ! i
                     \<or> lu \<and> fileMap ! i = [] \<and> k = ''DATA.WAR.'' @ fmtInt i)"
    if "k \<in> dom (Files arch)" for k
    using loadEntries_keys [OF le that] by auto
  with rh readHeader_length [OF rh] loadSlot_placeholder show ?thesis by blast
qed

text \<open>
  The instance: three slots, the first a placeholder (offset 0), the second without a name,
  loaded with \<^verbatim>\<open>LoadUnsupported\<close> set.
\<close>

theorem archive_keys_witness:
  "\<exists>arch. OpenArchiveFrom [''A'', [], ''B''] True
       \<lparr>bytes = [0x18, 0, 0, 0, 3, 0, 0, 0, 0, 0, 0, 0, 20, 0, 0, 0, 25, 0, 0, 0,
                  1, 0, 0, 0, 88, 1, 0, 0, 0, 89], pos = 0, script = []\<rparr> 30 = (Some arch, None)
     \<and> Files arch ''A'' = None \<and> Files arch ''DATA.WAR.1'' = Some [88] \<and> Files arch ''B'' = Some [89]
     \<and> (\<exists>ty T fp'. readHeader [''A'', [], ''B'']
            \<lparr>bytes = [0x18, 0, 0, 0, 3, 0, 0, 0, 0, 0, 0, 0, 20, 0, 0, 0, 25, 0, 0, 0,
                       1, 0, 0, 0, 88, 1, 0, 0, 0, 89], pos = 0, script = []\<rparr> = Inr (ty, T, fp')
          \<and> length T = 3
          \<and> (\<forall>k \<in> dom (Files arch). \<exists>i < length T. \<not> isPlaceHolder T (T ! i) i
                \<and> ([''A'', [], ''B''] ! i \<noteq> [] \<and> k = [''A'', [], ''B''] ! i
                   \<or> [''A'', [], ''B''] ! i = [] \<and> k = ''DATA.WAR.'' @ fmtInt i)))"
proof -
  let ?fp = "\<lparr>bytes = [0x18, 0, 0, 0, 3, 0, 0, 0, 0, 0, 0, 0, 20, 0, 0, 0, 25, 0, 0, 0,
                  1, 0, 0, 0, 88, 1, 0, 0, 0, 89], pos = 0, script = []\<rparr>"
  have "case OpenArchiveFrom [''A'', [], ''B''] True ?fp 30 of
          (Some a, None) \<Rightarrow> Files a ''A'' = None \<and> Files a ''DATA.WAR.1'' = Some [88]
                              \<and> Files a ''B'' = Some [89]
        | _ \<Rightarrow> False"
    by code_simp
  then obtain arch where h: "OpenArchiveFrom [''A'', [], ''B''] True ?fp 30 = (Some arch, None)"
    and f: "Files arch ''A'' = None" "Files arch ''DATA.WAR.1'' = Some [88]" "Files arch ''B'' = Some [89]"
    by (auto split: prod.splits option.splits)
  from archive_keys [OF h] h f show ?thesis by auto
qed

subsection \<open>Slots without a manifest name\<close>

text \<open>
  C7, as amended. For a present slot \<open>i\<close> whose manifest name is empty and whose header word
  was read: when \<^verbatim>\<open>LoadUnsupported\<close> is false the slot adds no entry, and every key of an
  archive loaded with the flag false is a non-empty manifest name; when the flag is true and
  the iteration completes, the slot is stored under \<open>DATA.WAR.<i>\<close>, which is not empty
  and differs from every manifest name that does not itself begin with \<open>DATA.WAR.\<close>. The
  code does not look into the manifest, so a manifest name of that form can coincide with
  the synthesized one.
\<close>

theorem empty_name_slot:
  assumes "\<not> isPlaceHolder T (T ! i) i" and "fileMap ! i = []"
    and "Seek fp (unat (T ! i)) = (None, fp1)" and "readUint32 fp1 = (h, None, fp2)"
  shows "(\<not> lu \<longrightarrow> loadSlot fileMap lu sz T i fp files = Next files fp2)
       \<and> (lu \<longrightarrow> (\<forall>files' fp'. loadSlot fileMap lu sz T i fp files = Next files' fp' \<longrightarrow>
                     (\<exists>data. files' = files(''DATA.WAR.'' @ fmtInt i \<mapsto> data))))
       \<and> ''DATA.WAR.'' @ fmtInt i \<noteq> []
       \<and> (\<forall>name \<in> set fileMap. \<not> prefix ''DATA.WAR.'' name \<longrightarrow> name \<noteq> ''DATA.WAR.'' @ fmtInt i)
       \<and> (\<not> lu \<longrightarrow> (\<forall>fp0 arch err. OpenArchiveFrom fileMap lu fp0 sz = (Some arch, err) \<longrightarrow>
                       [] \<notin> dom (Files arch) \<and> dom (Files arch) \<subseteq> set fileMap))"
proof -
  have a: "loadSlot fileMap lu sz T i fp files = Next files fp2" if "\<not> lu"
    using assms that by (simp add: loadSlot_def)
  have b: "\<exists>data. files' = files(''DATA.WAR.'' @ fmtInt i \<mapsto> data)"
    if "lu" and "loadSlot fileMap lu sz T i fp files = Next files' fp'" for files' fp'
    using assms that
    by (auto simp: loadSlot_def Let_def split: if_splits prod.splits option.splits)
  have c: "name \<noteq> ''DATA.WAR.'' @ fmtInt i" if "\<not> prefix ''DATA.WAR.'' name" for name
    using that by auto
  have d: "[] \<notin> dom (Files arch) \<and> dom (Files arch) \<subseteq> set fileMap"
    if "\<not> lu" and o: "OpenArchiveFrom fileMap lu fp0 sz = (Some arch, err)" for fp0 arch err
  proof -
    from o obtain ty T' fp' where rh: "readHeader fileMap fp0 = Inr (ty, T', fp')"
      and le: "loadEntries fileMap lu sz T' 0 fp' \<lparr>Type = ty, Files = Map.empty\<rparr> = (Some arch, err)"
      by (auto simp: OpenArchiveFrom_def split: sum.splits)
    have "k \<noteq> [] \<and> k \<in> set fileMap" if "k \<in> dom (Files arch)" for k
      using loadEntries_keys [OF le that] \<open>\<not> lu\<close> readHeader_length [OF rh] by auto
    then show ?thesis by blast
  qed
  from a b c d show ?thesis by blast
qed

text \<open>
  The instance: the second slot of a two-slot archive, whose manifest name is empty, with
  the flag false and with the flag true.
\<close>

theorem empty_name_slot_witness:
  "loadSlot [''A'', []] False 26 [16, 21] 1
     \<lparr>bytes = [0x18, 0, 0, 0, 2, 0, 0, 0, 16, 0, 0, 0, 21, 0, 0, 0,
                1, 0, 0, 0, 65, 1, 0, 0, 0, 66], pos = 21, script = []\<rparr> Map.empty
     = Next Map.empty
         \<lparr>bytes = [0x18, 0, 0, 0, 2, 0, 0, 0, 16, 0, 0, 0, 21, 0, 0, 0,
                    1, 0, 0, 0, 65, 1, 0, 0, 0, 66], pos = 25, script = []\<rparr>
   \<and> loadSlot [''A'', []] True 26 [16, 21] 1
     \<lparr>bytes = [0x18, 0, 0, 0, 2, 0, 0, 0, 16, 0, 0, 0, 21, 0, 0, 0,
                1, 0, 0, 0, 65, 1, 0, 0, 0, 66], pos = 21, script = []\<rparr> Map.empty
     = Next [''DATA.WAR.1'' \<mapsto> [66]]
         \<lparr>bytes = [0x18, 0, 0, 0, 2, 0, 0, 0, 16, 0, 0, 0, 21, 0, 0, 0,
                    1, 0, 0, 0, 65, 1, 0, 0, 0, 66], pos = 26, script = []\<rparr>
   \<and> ''A'' \<noteq> ''DATA.WAR.'' @ fmtInt 1"
proof -
  let ?bs = "[0x18, 0, 0, 0, 2, 0, 0, 0, 16, 0, 0, 0, 21, 0, 0, 0,
                1, 0, 0, 0, 65, 1, 0, 0, 0, 66] :: u8 list"
  have h1: "\<not> isPlaceHolder [16, 21] ([16, 21] ! 1) 1" by (simp add: isPlaceHolder_def)
  have h2: "[''A'', []] ! 1 = []" by simp
  have h3: "Seek \<lparr>bytes = ?bs, pos = 21, script = []\<rparr> (unat ([16, 21 :: u32] ! 1))
              = (None, \<lparr>bytes = ?bs, pos = 21, script = []\<rparr>)"
    by (simp add: Seek_def)
  have h4: "readUint32 \<lparr>bytes = ?bs, pos = 21, script = []\<rparr>
              = (1, None, \<lparr>bytes = ?bs, pos = 25, script = []\<rparr>)"
    by (simp add: readUint32_file le32_def)
  note w = empty_name_slot [OF h1 h2 h3 h4]
  have a: "loadSlot [''A'', []] False 26 [16, 21] 1 \<lparr>bytes = ?bs, pos = 21, script = []\<rparr> Map.empty
             = Next Map.empty \<lparr>bytes = ?bs, pos = 25, script = []\<rparr>"
    using w [of False 26 Map.empty] by simp
  have e: "loadSlot [''A'', []] True 26 [16, 21] 1 \<lparr>bytes = ?bs, pos = 21, script = []\<rparr> Map.empty
             = Next [''DATA.WAR.'' @ fmtInt 1 \<mapsto> [66]] \<lparr>bytes = ?bs, pos = 26, script = []\<rparr>"
    using h1 h2 h3 h4
    by (simp add: loadSlot_def isCompressed_def entrySize_def Read_def fileRead_def)
  have f: "fmtInt 1 = ''1''" by (simp add: fmtInt.simps [of "Suc 0"])
  have c: "''A'' \<noteq> ''DATA.WAR.'' @ fmtInt 1"
    using w [of True 26 Map.empty] by simp
  from a e f c show ?thesis by simp
qed

text \<open>
  The claim as stated fails for the manifest \<open>[DATA.WAR.1, ""]\<close>: the name synthesized for
  slot 1 is the manifest name of slot 0, and the loaded archive holds the payload of slot 1
  (the byte \<open>B\<close>) under that name, in place of the payload of slot 0.
\<close>

theorem empty_name_slot_counterexample:
  "[''DATA.WAR.1'', []] ! 1 = []
   \<and> ''DATA.WAR.'' @ fmtInt 1 \<in> set [''DATA.WAR.1'', []]
   \<and> snd (OpenArchiveFrom [''DATA.WAR.1'', []] True
             \<lparr>bytes = [0x18, 0, 0, 0, 2, 0, 0, 0, 16, 0, 0, 0, 21, 0, 0, 0,
                        1, 0, 0, 0, 65, 1, 0, 0, 0, 66], pos = 0, script = []\<rparr> 26) = None
   \<and> Files (the (fst (OpenArchiveFrom [''DATA.WAR.1'', []] True
             \<lparr>bytes = [0x18, 0, 0, 0, 2, 0, 0, 0, 16, 0, 0, 0, 21, 0, 0, 0,
                        1, 0, 0, 0, 65, 1, 0, 0, 0, 66], pos = 0, script = []\<rparr> 26)))
        ''DATA.WAR.1'' = Some [66]"
  by code_simp

subsection \<open>The parts of a back-reference\<close>

text \<open>
  The \<^verbatim>\<open>uint16\<close> division and remainder of line 275 and 276 are those of the natural
  numbers, the run is at most 15 and the position at most 4095: \<^verbatim>\<open>numBytes+2\<close> is at
  most 17 and \<^verbatim>\<open>offset+m\<close> at most 4112, far below \<open>2 ^ 16\<close>.
\<close>

lemma short_parts:
  fixes offset :: u16
  shows "unat (offset div 4096) = unat offset div bufferSize
       \<and> unat (offset mod 4096) = unat offset mod bufferSize
       \<and> unat offset div bufferSize \<le> 15
       \<and> unat offset mod bufferSize \<le> 4095"
proof -
  have "unat offset < 2 ^ 16" using unsigned_less [of offset] by simp
  then have "unat offset div bufferSize \<le> 15" by simp
  moreover have "unat offset mod bufferSize \<le> 4095"
    using mod_less_divisor [of bufferSize "unat offset"] by simp
  ultimately show ?thesis by (simp add: unat_div_distrib unat_mod_distrib)
qed

subsection \<open>The length of the decoded output\<close>

text \<open>
  What the loops keep: the output holds as many bytes as the write counter says and only
  grows, a run that ends without error has read at least \<^verbatim>\<open>dataSize\<close> bytes, and from a
  state whose write counter equals \<^verbatim>\<open>fileSize\<close> nothing more is written.
\<close>

lemma copyLoop_inv:
  "length (out st) = numWrite st \<Longrightarrow>
   length (out (copyLoop m numBytes offset st)) = numWrite (copyLoop m numBytes offset st)
   \<and> prefix (out st) (out (copyLoop m numBytes offset st))"
proof (induction m numBytes offset st rule: copyLoop.induct)
  case (1 m numBytes offset st)
  show ?case
  proof (cases "m \<le> numBytes + 2")
    case False
    with "1.prems" show ?thesis by (simp add: copyLoop.simps [of m])
  next
    case True
    let ?b = "buffer st ! ((offset + m) mod bufferSize)"
    let ?st = "st\<lparr>buffer := (buffer st)[numWrite st mod bufferSize := ?b],
                  out := out st @ [?b], numWrite := numWrite st + 1\<rparr>"
    from "1.prems" have "length (out ?st) = numWrite ?st" by simp
    from "1.IH" [OF True refl this]
    have l: "length (out (copyLoop (m + 1) numBytes offset ?st)) = numWrite (copyLoop (m + 1) numBytes offset ?st)"
      and p: "prefix (out ?st) (out (copyLoop (m + 1) numBytes offset ?st))"
      by simp_all
    have "prefix (out st) (out ?st)" by simp
    from prefix_order.trans [OF this p]
    have p': "prefix (out st) (out (copyLoop (m + 1) numBytes offset ?st))" .
    have "copyLoop m numBytes offset st = copyLoop (m + 1) numBytes offset ?st"
      using True by (simp add: copyLoop.simps [of m] Let_def)
    with l p' show ?thesis by simp
  qed
qed

lemma bitLoop_at_target:
  "int (numWrite st) = fileSize \<Longrightarrow> bitLoop fileSize i cmask st = (None, st)"
  by (simp add: bitLoop.simps [of fileSize i cmask st])

lemma bitLoop_inv:
  "bitLoop fileSize i cmask st = (err, st') \<Longrightarrow> length (out st) = numWrite st \<Longrightarrow>
   length (out st') = numWrite st' \<and> prefix (out st) (out st')"
proof (induction fileSize i cmask st rule: bitLoop.induct)
  case (1 fileSize i cmask st)
  show ?case
  proof (cases "i < 8 \<and> int (numWrite st) \<noteq> fileSize")
    case False
    with "1.prems" show ?thesis by (simp add: bitLoop.simps [of fileSize i cmask st])
  next
    case True
    show ?thesis
    proof (cases "cmask mod 2 = 1")
      case lit: True
      obtain b e r' where rb: "readByte (rdr st) = (b, e, r')" by (cases "readByte (rdr st)")
      show ?thesis
      proof (cases e)
        case None
        then have ne: "\<not> e \<noteq> None" by simp
        let ?st1 = "st\<lparr>numRead := numRead st + 1, rdr := r'\<rparr>"
        let ?st2 = "?st1\<lparr>buffer := (buffer ?st1)[numWrite ?st1 mod bufferSize := b],
                         out := out ?st1 @ [b], numWrite := numWrite ?st1 + 1\<rparr>"
        from "1.prems" True lit rb None
        have run: "bitLoop fileSize (i + 1) (cmask div 2) ?st2 = (err, st')"
          by (simp add: bitLoop.simps [of fileSize i cmask st] Let_def)
        from "1.prems" have "length (out ?st2) = numWrite ?st2" by simp
        from "1.IH"(1) [OF True lit rb [symmetric] refl refl ne run this]
        have l: "length (out st') = numWrite st'" and p: "prefix (out ?st2) (out st')" by simp_all
        have "prefix (out st) (out ?st2)" by simp
        from l prefix_order.trans [OF this p] show ?thesis by simp
      next
        case (Some a)
        with "1.prems" True lit rb have "st' = st\<lparr>numRead := numRead st + 1, rdr := r'\<rparr>"
          by (simp add: bitLoop.simps [of fileSize i cmask st] Let_def)
        with "1.prems" show ?thesis by simp
      qed
    next
      case ref: False
      obtain w e r' where rs: "readShort (rdr st) = (w, e, r')" by (cases "readShort (rdr st)")
      show ?thesis
      proof (cases e)
        case None
        then have ne: "\<not> e \<noteq> None" by simp
        let ?st1 = "st\<lparr>numRead := numRead st + 2, rdr := r'\<rparr>"
        let ?st2 = "copyLoop 0 (unat w div bufferSize) (unat w mod bufferSize) ?st1"
        from "1.prems" True ref rs None
        have run: "bitLoop fileSize (i + 1) (cmask div 2) ?st2 = (err, st')"
          by (simp add: bitLoop.simps [of fileSize i cmask st] Let_def)
        from "1.prems" have "length (out ?st1) = numWrite ?st1" by simp
        from copyLoop_inv [OF this]
        have c: "length (out ?st2) = numWrite ?st2" "prefix (out ?st1) (out ?st2)" by simp_all
        from "1.IH"(2) [OF True ref rs [symmetric] refl refl ne run c(1)]
        have l: "length (out st') = numWrite st'" and p: "prefix (out ?st2) (out st')" by simp_all
        from c(2) have "prefix (out st) (out ?st2)" by simp
        from l prefix_order.trans [OF this p] show ?thesis by simp
      next
        case (Some a)
        with "1.prems" True ref rs have "st' = st\<lparr>numRead := numRead st + 2, rdr := r'\<rparr>"
          by (simp add: bitLoop.simps [of fileSize i cmask st] Let_def)
        with "1.prems" show ?thesis by simp
      qed
    qed
  qed
qed

lemma outerLoop_inv:
  "outerLoop fileSize dataSize st = (err, st') \<Longrightarrow> length (out st) = numWrite st \<Longrightarrow>
   length (out st') = numWrite st' \<and> prefix (out st) (out st')
   \<and> (err = None \<longrightarrow> dataSize \<le> int (numRead st'))
   \<and> (int (numWrite st) = fileSize \<longrightarrow>
        out st' = out st \<and> numWrite st' = numWrite st \<and> buffer st' = buffer st)"
proof (induction fileSize dataSize st rule: outerLoop.induct)
  case (1 fileSize dataSize st)
  show ?case
  proof (cases "int (numRead st) < dataSize")
    case False
    with "1.prems" show ?thesis by (simp add: outerLoop.simps [of fileSize dataSize st])
  next
    case True
    obtain c e r' where rb: "readByte (rdr st) = (c, e, r')" by (cases "readByte (rdr st)")
    let ?st1 = "st\<lparr>numRead := numRead st + 1, rdr := r'\<rparr>"
    show ?thesis
    proof (cases e)
      case (Some a)
      with "1.prems" True rb have "st' = ?st1" "err = Some a"
        by (simp_all add: outerLoop.simps [of fileSize dataSize st] Let_def)
      with "1.prems" show ?thesis by simp
    next
      case None
      then have ne: "\<not> e \<noteq> None" by simp
      obtain e2 st2 where bl: "bitLoop fileSize 0 c ?st1 = (e2, st2)"
        by (cases "bitLoop fileSize 0 c ?st1")
      from "1.prems" have l1: "length (out ?st1) = numWrite ?st1" by simp
      from bitLoop_inv [OF bl l1]
      have i2: "length (out st2) = numWrite st2" "prefix (out st) (out st2)" by simp_all
      have t2: "st2 = ?st1 \<and> e2 = None" if "int (numWrite st) = fileSize"
        using bitLoop_at_target [of ?st1 fileSize 0 c] that bl by simp
      show ?thesis
      proof (cases e2)
        case (Some a)
        with "1.prems" True rb None bl have "st' = st2" "err = Some a"
          by (simp_all add: outerLoop.simps [of fileSize dataSize st] Let_def)
        with i2 t2 Some show ?thesis by auto
      next
        case n2: None
        with "1.prems" True rb None bl
        have run: "outerLoop fileSize dataSize st2 = (err, st')"
          by (simp add: outerLoop.simps [of fileSize dataSize st] Let_def)
        from n2 bl have bl': "(None, st2) = bitLoop fileSize 0 c ?st1" by simp
        from "1.IH" [OF True rb [symmetric] refl refl ne bl' refl run i2(1)]
        have ih: "length (out st') = numWrite st'" "prefix (out st2) (out st')"
          "err = None \<longrightarrow> dataSize \<le> int (numRead st')"
          "int (numWrite st2) = fileSize \<longrightarrow>
             out st' = out st2 \<and> numWrite st' = numWrite st2 \<and> buffer st' = buffer st2"
          by simp_all
        from prefix_order.trans [OF i2(2) ih(2)] have "prefix (out st) (out st')" .
        with ih t2 show ?thesis by auto
      qed
    qed
  qed
qed

text \<open>
  C1, as amended. \<^verbatim>\<open>uncompressData\<close> fails with an error or returns the bytes it has
  written, as many as its write counter says, once at least \<^verbatim>\<open>dataSize\<close> bytes of input
  are read. The loop over the bits of a control byte ends as soon as the write counter equals
  \<^verbatim>\<open>fileSize\<close>, and from a state whose counter equals \<^verbatim>\<open>fileSize\<close> nothing more is
  written, so the output is empty for \<^verbatim>\<open>fileSize = 0\<close>. The loop over the control bytes
  is bounded by the budget alone: when the budget ends before the target is reached the
  shorter output is returned with a nil error, and for \<^verbatim>\<open>dataSize \<le> 0\<close> the output is
  empty and nothing is read. The statement says nothing about a back-reference whose copy
  reaches the target before its last byte.
\<close>

theorem uncompressData_output:
  assumes "uncompressData reader fileSize dataSize = (data, None, reader')"
  shows "(\<exists>st'. outerLoop fileSize dataSize
                  \<lparr>buffer = replicate bufferSize 0, out = [], numWrite = 0, numRead = 0,
                     rdr = reader\<rparr> = (None, st')
             \<and> data = out st' \<and> length data = numWrite st' \<and> reader' = rdr st'
             \<and> dataSize \<le> int (numRead st'))
       \<and> (fileSize = 0 \<longrightarrow> data = [])
       \<and> (dataSize \<le> 0 \<longrightarrow> data = [] \<and> reader' = reader)
       \<and> (\<forall>s i cmask. int (numWrite s) = fileSize \<longrightarrow> bitLoop fileSize i cmask s = (None, s))
       \<and> (\<forall>s e s'. int (numWrite s) = fileSize \<and> length (out s) = numWrite s
                     \<and> outerLoop fileSize dataSize s = (e, s') \<longrightarrow> out s' = out s)"
proof -
  let ?init = "\<lparr>buffer = replicate bufferSize 0, out = [], numWrite = 0, numRead = 0,
                 rdr = reader\<rparr>"
  from assms obtain st' where run: "outerLoop fileSize dataSize ?init = (None, st')"
    and res: "data = out st'" "reader' = rdr st'"
    by (auto simp: uncompressData_def split: prod.splits option.splits)
  have l0: "length (out ?init) = numWrite ?init" by simp
  from outerLoop_inv [OF run l0]
  have inv: "length (out st') = numWrite st'" "dataSize \<le> int (numRead st')"
    "int (numWrite ?init) = fileSize \<longrightarrow> out st' = out ?init"
    by simp_all
  have z: "data = []" if "fileSize = 0" using inv(3) res that by simp
  have b: "data = [] \<and> reader' = reader" if "dataSize \<le> 0"
  proof -
    from that run have "st' = ?init"
      by (simp add: outerLoop.simps [of fileSize dataSize ?init])
    with res show ?thesis by simp
  qed
  have t: "out s' = out s"
    if "int (numWrite s) = fileSize \<and> length (out s) = numWrite s
          \<and> outerLoop fileSize dataSize s = (e, s')" for s e s'
    using outerLoop_inv [of fileSize dataSize s e s'] that by simp
  from run res inv z b t bitLoop_at_target show ?thesis by blast
qed

text \<open>
  The instance: the control byte \<open>0xFF\<close> and the eight literals \<open>ABCDEFGH\<close>, with target 8
  and budget 9.
\<close>

theorem uncompressData_output_witness:
  "uncompressData \<lparr>bytes = [0xFF, 65, 66, 67, 68, 69, 70, 71, 72], pos = 0, script = []\<rparr> 8 9
     = ([65, 66, 67, 68, 69, 70, 71, 72], None,
        \<lparr>bytes = [0xFF, 65, 66, 67, 68, 69, 70, 71, 72], pos = 9, script = []\<rparr>)
   \<and> (\<exists>st'. outerLoop 8 9
               \<lparr>buffer = replicate bufferSize 0, out = [], numWrite = 0, numRead = 0,
                  rdr = \<lparr>bytes = [0xFF, 65, 66, 67, 68, 69, 70, 71, 72], pos = 0, script = []\<rparr>\<rparr>
               = (None, st')
             \<and> out st' = [65, 66, 67, 68, 69, 70, 71, 72] \<and> numWrite st' = 8
             \<and> 9 \<le> int (numRead st'))"
proof -
  have h: "uncompressData \<lparr>bytes = [0xFF, 65, 66, 67, 68, 69, 70, 71, 72], pos = 0, script = []\<rparr> 8 9
     = ([65, 66, 67, 68, 69, 70, 71, 72], None,
        \<lparr>bytes = [0xFF, 65, 66, 67, 68, 69, 70, 71, 72], pos = 9, script = []\<rparr>)"
    by code_simp
  from uncompressData_output [OF h] h show ?thesis by auto
qed

text \<open>
  The claim as stated fails on the same stream with target 100 and budget 9: the budget is
  used up after the eight literals, and the eight bytes are returned with a nil error.
\<close>

theorem uncompressData_output_counterexample:
  "uncompressData \<lparr>bytes = [0xFF, 65, 66, 67, 68, 69, 70, 71, 72], pos = 0, script = []\<rparr> 100 9
     = ([65, 66, 67, 68, 69, 70, 71, 72], None,
        \<lparr>bytes = [0xFF, 65, 66, 67, 68, 69, 70, 71, 72], pos = 9, script = []\<rparr>)"
  by code_simp

text \<open>
  The copy loop of a back-reference (lines 278 to 284) has no test of the write counter. With
  target 2, the back-reference of the first bit below writes 3 bytes; the counter is then
  never equal to the target, and the seven literals that follow are written as well.
\<close>

lemma uncompressData_overshoot:
  "uncompressData \<lparr>bytes = [0xFE, 0, 0, 1, 2, 3, 4, 5, 6, 7], pos = 0, script = []\<rparr> 2 10
     = ([0, 0, 0, 1, 2, 3, 4, 5, 6, 7], None,
        \<lparr>bytes = [0xFE, 0, 0, 1, 2, 3, 4, 5, 6, 7], pos = 10, script = []\<rparr>)"
  by code_simp

subsection \<open>Determinism of the decompressor\<close>

lemma fileRead_same:
  assumes "drop (pos r1) (bytes r1) = drop (pos r2) (bytes r2)"
    and "script r1 = script r2"
    and "fileRead r1 n = (bs1, e1, r1')" and "fileRead r2 n = (bs2, e2, r2')"
  shows "bs1 = bs2 \<and> e1 = e2 \<and> sameInput r1' r2'"
proof -
  have eof: "(length (bytes r1) \<le> pos r1) = (length (bytes r2) \<le> pos r2)"
    using assms(1) by (metis drop_eq_Nil)
  have d: "drop (pos r1 + k) (bytes r1) = drop (pos r2 + k) (bytes r2)" for k
    using assms(1) by (metis add.commute drop_drop)
  consider "n = 0" | "n \<noteq> 0" "length (bytes r1) \<le> pos r1"
    | "n \<noteq> 0" "\<not> length (bytes r1) \<le> pos r1"
    by blast
  then show ?thesis
  proof cases
    case 1
    with assms have "bs1 = []" "bs2 = []" "e1 = None" "e2 = None" "r1' = r1" "r2' = r2"
      by (simp_all add: fileRead_def)
    with assms(1,2) show ?thesis by (simp add: sameInput_def)
  next
    case 2
    with eof have "length (bytes r2) \<le> pos r2" by simp
    with 2 assms have "bs1 = []" "bs2 = []" "e1 = Some EOF" "e2 = Some EOF" "r1' = r1" "r2' = r2"
      by (simp_all add: fileRead_def)
    with assms(1,2) show ?thesis by (simp add: sameInput_def)
  next
    case 3
    with eof have n2: "\<not> length (bytes r2) \<le> pos r2" by simp
    let ?t = "take n (drop (pos r2) (bytes r2))"
    from 3 assms(1,3) have r1: "bs1 = ?t" "e1 = None" "r1' = r1\<lparr>pos := pos r1 + length ?t\<rparr>"
      by (auto simp: fileRead_def)
    from 3 n2 assms(4) have r2: "bs2 = ?t" "e2 = None" "r2' = r2\<lparr>pos := pos r2 + length ?t\<rparr>"
      by (auto simp: fileRead_def)
    from r1 r2 d [of "length ?t"] assms(2) show ?thesis by (simp add: sameInput_def)
  qed
qed

lemma Read_same:
  assumes "sameInput r1 r2" and "Read r1 n = (bs1, e1, r1')" and "Read r2 n = (bs2, e2, r2')"
  shows "bs1 = bs2 \<and> e1 = e2 \<and> sameInput r1' r2'"
proof -
  from assms(1) have dr: "drop (pos r1) (bytes r1) = drop (pos r2) (bytes r2)"
    and sc: "script r2 = script r1"
    by (simp_all add: sameInput_def)
  show ?thesis
  proof (cases "script r1")
    case Nil
    with sc assms(2,3) have "fileRead r1 n = (bs1, e1, r1')" "fileRead r2 n = (bs2, e2, r2')"
      by (simp_all add: Read_def)
    from fileRead_same [OF dr sc [symmetric] this] show ?thesis .
  next
    case (Cons ev es)
    show ?thesis
    proof (cases ev)
      case (Deliver k)
      with Cons sc assms(2,3)
      have "fileRead (r1\<lparr>script := es\<rparr>) (min k n) = (bs1, e1, r1')"
        and "fileRead (r2\<lparr>script := es\<rparr>) (min k n) = (bs2, e2, r2')"
        by (simp_all add: Read_def)
      from fileRead_same [OF _ _ this] dr show ?thesis by simp
    next
      case (Fail e)
      with Cons sc assms(2,3)
      have "bs1 = []" "bs2 = []" "e1 = Some e" "e2 = Some e"
        "r1' = r1\<lparr>script := es\<rparr>" "r2' = r2\<lparr>script := es\<rparr>"
        by (simp_all add: Read_def)
      with dr show ?thesis by (simp add: sameInput_def)
    qed
  qed
qed

lemma readFull_same:
  "sameInput r1 r2 \<Longrightarrow> readFull r1 need acc = (bs1, e1, r1') \<Longrightarrow>
   readFull r2 need acc = (bs2, e2, r2') \<Longrightarrow> bs1 = bs2 \<and> e1 = e2 \<and> sameInput r1' r2'"
proof (induction "length (script r1) + need" arbitrary: r1 r2 need acc rule: less_induct)
  case less
  show ?case
  proof (cases "need = 0")
    case True
    with less.prems have "bs1 = acc" "bs2 = acc" "e1 = None" "e2 = None" "r1' = r1" "r2' = r2"
      by (simp_all add: readFull.simps [of _ 0])
    with less.prems(1) show ?thesis by simp
  next
    case False
    obtain a1 x1 q1 where R1: "Read r1 need = (a1, x1, q1)" by (cases "Read r1 need")
    obtain a2 x2 q2 where R2: "Read r2 need = (a2, x2, q2)" by (cases "Read r2 need")
    from Read_same [OF less.prems(1) R1 R2] have s: "a1 = a2" "x1 = x2" "sameInput q1 q2"
      by simp_all
    show ?thesis
    proof (cases x1)
      case None
      from False R1 None have lt: "length (script q1) + (need - length a1) < length (script r1) + need"
        using Read_progress [of r1 need a1 q1] by simp
      from less.prems False R1 R2 None s
      have "readFull q1 (need - length a1) (acc @ a1) = (bs1, e1, r1')"
        and "readFull q2 (need - length a1) (acc @ a1) = (bs2, e2, r2')"
        by (simp_all add: readFull.simps [of _ need])
      from less.hyps [OF lt s(3) this] show ?thesis .
    next
      case (Some e)
      with less.prems False R1 R2 s show ?thesis
        by (auto simp: readFull.simps [of _ need] split: if_splits)
    qed
  qed
qed

lemma readByte_same:
  assumes "sameInput r1 r2" and "readByte r1 = (b1, e1, r1')" and "readByte r2 = (b2, e2, r2')"
  shows "b1 = b2 \<and> e1 = e2 \<and> sameInput r1' r2'"
proof -
  obtain a1 x1 q1 where R1: "Read r1 1 = (a1, x1, q1)" by (cases "Read r1 1")
  obtain a2 x2 q2 where R2: "Read r2 1 = (a2, x2, q2)" by (cases "Read r2 1")
  from Read_same [OF assms(1) R1 R2] assms(2,3) R1 R2 show ?thesis
    by (auto simp: readByte_def split: if_splits)
qed

lemma readShort_same:
  assumes "sameInput r1 r2" and "readShort r1 = (w1, e1, r1')" and "readShort r2 = (w2, e2, r2')"
  shows "w1 = w2 \<and> e1 = e2 \<and> sameInput r1' r2'"
proof -
  obtain a1 x1 q1 where R1: "readFull r1 2 [] = (a1, x1, q1)" by (cases "readFull r1 2 []")
  obtain a2 x2 q2 where R2: "readFull r2 2 [] = (a2, x2, q2)" by (cases "readFull r2 2 []")
  from readFull_same [OF assms(1) R1 R2] assms(2,3) R1 R2 show ?thesis
    by (auto simp: readShort_def split: option.splits)
qed

lemma copyLoop_same:
  "sameState s1 s2 \<Longrightarrow> sameState (copyLoop m numBytes offset s1) (copyLoop m numBytes offset s2)"
proof (induction m numBytes offset s1 arbitrary: s2 rule: copyLoop.induct)
  case (1 m numBytes offset st)
  show ?case
  proof (cases "m \<le> numBytes + 2")
    case False
    with "1.prems" show ?thesis by (simp add: copyLoop.simps [of m])
  next
    case True
    let ?b = "buffer st ! ((offset + m) mod bufferSize)"
    let ?u = "\<lambda>s. s\<lparr>buffer := (buffer s)[numWrite s mod bufferSize := ?b],
                       out := out s @ [?b], numWrite := numWrite s + 1\<rparr>"
    from "1.prems" have "sameState (?u st) (?u s2)" by (simp add: sameState_def)
    from "1.IH" [OF True refl this] "1.prems" True show ?thesis
      by (simp add: copyLoop.simps [of m] Let_def sameState_def)
  qed
qed

lemma bitLoop_same:
  "sameState s1 s2 \<Longrightarrow> bitLoop fileSize i cmask s1 = (e1, s1') \<Longrightarrow>
   bitLoop fileSize i cmask s2 = (e2, s2') \<Longrightarrow> e1 = e2 \<and> sameState s1' s2'"
proof (induction fileSize i cmask s1 arbitrary: s2 rule: bitLoop.induct)
  case (1 fileSize i cmask st)
  from "1.prems"(1) have nw: "numWrite s2 = numWrite st" and si: "sameInput (rdr st) (rdr s2)"
    by (simp_all add: sameState_def)
  show ?case
  proof (cases "i < 8 \<and> int (numWrite st) \<noteq> fileSize")
    case False
    with nw have f2: "\<not> (i < 8 \<and> int (numWrite s2) \<noteq> fileSize)" by simp
    from "1.prems"(2) False have "s1' = st" "e1 = None"
      by (simp_all add: bitLoop.simps [of fileSize i cmask st])
    moreover from "1.prems"(3) f2 have "s2' = s2" "e2 = None"
      by (simp_all add: bitLoop.simps [of fileSize i cmask s2])
    ultimately show ?thesis using "1.prems"(1) by simp
  next
    case True
    show ?thesis
    proof (cases "cmask mod 2 = 1")
      case lit: True
      obtain b x r' where rb: "readByte (rdr st) = (b, x, r')" by (cases "readByte (rdr st)")
      obtain b2 x2 r2' where rb2: "readByte (rdr s2) = (b2, x2, r2')" by (cases "readByte (rdr s2)")
      from readByte_same [OF si rb rb2] have eq: "b2 = b" "x2 = x" "sameInput r' r2'" by simp_all
      let ?st1 = "st\<lparr>numRead := numRead st + 1, rdr := r'\<rparr>"
      let ?t1 = "s2\<lparr>numRead := numRead s2 + 1, rdr := r2'\<rparr>"
      from "1.prems"(1) eq have s1: "sameState ?st1 ?t1" by (simp add: sameState_def)
      show ?thesis
      proof (cases x)
        case None
        then have ne: "\<not> x \<noteq> None" by simp
        let ?st2 = "?st1\<lparr>buffer := (buffer ?st1)[numWrite ?st1 mod bufferSize := b],
                         out := out ?st1 @ [b], numWrite := numWrite ?st1 + 1\<rparr>"
        let ?t2 = "?t1\<lparr>buffer := (buffer ?t1)[numWrite ?t1 mod bufferSize := b],
                         out := out ?t1 @ [b], numWrite := numWrite ?t1 + 1\<rparr>"
        from s1 have s2: "sameState ?st2 ?t2" by (simp add: sameState_def)
        from "1.prems"(2) True lit rb None
        have run1: "bitLoop fileSize (i + 1) (cmask div 2) ?st2 = (e1, s1')"
          by (simp add: bitLoop.simps [of fileSize i cmask st] Let_def)
        from "1.prems"(3) True lit rb2 None eq nw
        have run2: "bitLoop fileSize (i + 1) (cmask div 2) ?t2 = (e2, s2')"
          by (simp add: bitLoop.simps [of fileSize i cmask s2] Let_def)
        from "1.IH"(1) [OF True lit rb [symmetric] refl refl ne s2 run1 run2] show ?thesis .
      next
        case (Some a)
        with "1.prems"(2) True lit rb have "s1' = ?st1" "e1 = Some a"
          by (simp_all add: bitLoop.simps [of fileSize i cmask st] Let_def)
        moreover from Some "1.prems"(3) True lit rb2 eq nw have "s2' = ?t1" "e2 = Some a"
          by (simp_all add: bitLoop.simps [of fileSize i cmask s2] Let_def)
        ultimately show ?thesis using s1 by simp
      qed
    next
      case ref: False
      obtain w x r' where rs: "readShort (rdr st) = (w, x, r')" by (cases "readShort (rdr st)")
      obtain w2 x2 r2' where rs2: "readShort (rdr s2) = (w2, x2, r2')" by (cases "readShort (rdr s2)")
      from readShort_same [OF si rs rs2] have eq: "w2 = w" "x2 = x" "sameInput r' r2'" by simp_all
      let ?st1 = "st\<lparr>numRead := numRead st + 2, rdr := r'\<rparr>"
      let ?t1 = "s2\<lparr>numRead := numRead s2 + 2, rdr := r2'\<rparr>"
      from "1.prems"(1) eq have s1: "sameState ?st1 ?t1" by (simp add: sameState_def)
      show ?thesis
      proof (cases x)
        case None
        then have ne: "\<not> x \<noteq> None" by simp
        let ?st2 = "copyLoop 0 (unat w div bufferSize) (unat w mod bufferSize) ?st1"
        let ?t2 = "copyLoop 0 (unat w div bufferSize) (unat w mod bufferSize) ?t1"
        from copyLoop_same [OF s1] have s2: "sameState ?st2 ?t2" .
        from "1.prems"(2) True ref rs None
        have run1: "bitLoop fileSize (i + 1) (cmask div 2) ?st2 = (e1, s1')"
          by (simp add: bitLoop.simps [of fileSize i cmask st] Let_def)
        from "1.prems"(3) True ref rs2 None eq nw
        have run2: "bitLoop fileSize (i + 1) (cmask div 2) ?t2 = (e2, s2')"
          by (simp add: bitLoop.simps [of fileSize i cmask s2] Let_def)
        from "1.IH"(2) [OF True ref rs [symmetric] refl refl ne s2 run1 run2] show ?thesis .
      next
        case (Some a)
        with "1.prems"(2) True ref rs have "s1' = ?st1" "e1 = Some a"
          by (simp_all add: bitLoop.simps [of fileSize i cmask st] Let_def)
        moreover from Some "1.prems"(3) True ref rs2 eq nw have "s2' = ?t1" "e2 = Some a"
          by (simp_all add: bitLoop.simps [of fileSize i cmask s2] Let_def)
        ultimately show ?thesis using s1 by simp
      qed
    qed
  qed
qed

lemma outerLoop_same:
  "sameState s1 s2 \<Longrightarrow> outerLoop fileSize dataSize s1 = (e1, s1') \<Longrightarrow>
   outerLoop fileSize dataSize s2 = (e2, s2') \<Longrightarrow> e1 = e2 \<and> sameState s1' s2'"
proof (induction fileSize dataSize s1 arbitrary: s2 rule: outerLoop.induct)
  case (1 fileSize dataSize st)
  from "1.prems"(1) have nr: "numRead s2 = numRead st" and si: "sameInput (rdr st) (rdr s2)"
    by (simp_all add: sameState_def)
  show ?case
  proof (cases "int (numRead st) < dataSize")
    case False
    with nr have f2: "\<not> int (numRead s2) < dataSize" by simp
    from "1.prems"(2) False have "s1' = st" "e1 = None"
      by (simp_all add: outerLoop.simps [of fileSize dataSize st])
    moreover from "1.prems"(3) f2 have "s2' = s2" "e2 = None"
      by (simp_all add: outerLoop.simps [of fileSize dataSize s2])
    ultimately show ?thesis using "1.prems"(1) by simp
  next
    case True
    obtain c x r' where rb: "readByte (rdr st) = (c, x, r')" by (cases "readByte (rdr st)")
    obtain c2 x2 r2' where rb2: "readByte (rdr s2) = (c2, x2, r2')" by (cases "readByte (rdr s2)")
    from readByte_same [OF si rb rb2] have eq: "c2 = c" "x2 = x" "sameInput r' r2'" by simp_all
    let ?st1 = "st\<lparr>numRead := numRead st + 1, rdr := r'\<rparr>"
    let ?t1 = "s2\<lparr>numRead := numRead s2 + 1, rdr := r2'\<rparr>"
    from "1.prems"(1) eq have s1: "sameState ?st1 ?t1" by (simp add: sameState_def)
    show ?thesis
    proof (cases x)
      case (Some a)
      with "1.prems"(2) True rb have "s1' = ?st1" "e1 = Some a"
        by (simp_all add: outerLoop.simps [of fileSize dataSize st] Let_def)
      moreover from Some "1.prems"(3) True rb2 eq nr have "s2' = ?t1" "e2 = Some a"
        by (simp_all add: outerLoop.simps [of fileSize dataSize s2] Let_def)
      ultimately show ?thesis using s1 by simp
    next
      case None
      then have ne: "\<not> x \<noteq> None" by simp
      obtain y st2 where bl: "bitLoop fileSize 0 c ?st1 = (y, st2)"
        by (cases "bitLoop fileSize 0 c ?st1")
      obtain y2 t2 where bl2: "bitLoop fileSize 0 c ?t1 = (y2, t2)"
        by (cases "bitLoop fileSize 0 c ?t1")
      from bitLoop_same [OF s1 bl bl2] have beq: "y2 = y" "sameState st2 t2" by simp_all
      show ?thesis
      proof (cases y)
        case (Some a)
        with "1.prems"(2) True rb None bl have "s1' = st2" "e1 = Some a"
          by (simp_all add: outerLoop.simps [of fileSize dataSize st] Let_def)
        moreover from Some "1.prems"(3) True rb2 None eq nr bl2 beq have "s2' = t2" "e2 = Some a"
          by (simp_all add: outerLoop.simps [of fileSize dataSize s2] Let_def)
        ultimately show ?thesis using beq by simp
      next
        case n2: None
        with "1.prems"(2) True rb None bl
        have run1: "outerLoop fileSize dataSize st2 = (e1, s1')"
          by (simp add: outerLoop.simps [of fileSize dataSize st] Let_def)
        from n2 "1.prems"(3) True rb2 None eq nr bl2 beq
        have run2: "outerLoop fileSize dataSize t2 = (e2, s2')"
          by (simp add: outerLoop.simps [of fileSize dataSize s2] Let_def)
        from n2 bl have bl': "(None, st2) = bitLoop fileSize 0 c ?st1" by simp
        from "1.IH" [OF True rb [symmetric] refl refl ne bl' refl beq(2) run1 run2]
        show ?thesis .
      qed
    qed
  qed
qed

text \<open>
  C8. Two calls of \<^verbatim>\<open>uncompressData\<close> with the same target and budget, on streams that
  deliver the same bytes, return the same bytes and the same error and leave streams that
  again deliver the same bytes. The result is a function of the stream and the two sizes
  alone: every call runs its loop from a dictionary of 4096 zero bytes, an empty output and
  zero counters of its own, so nothing that an earlier call decoded reaches it.
\<close>

theorem uncompressData_deterministic:
  assumes "sameInput r1 r2"
    and "uncompressData r1 fileSize dataSize = (d1, e1, r1')"
    and "uncompressData r2 fileSize dataSize = (d2, e2, r2')"
  shows "d1 = d2 \<and> e1 = e2 \<and> sameInput r1' r2'
       \<and> uncompressData r1 fileSize dataSize =
           (case outerLoop fileSize dataSize
                   \<lparr>buffer = replicate bufferSize 0, out = [], numWrite = 0, numRead = 0,
                      rdr = r1\<rparr> of
              (Some e, st) \<Rightarrow> (buffer st, Some e, rdr st)
            | (None, st) \<Rightarrow> (out st, None, rdr st))"
proof -
  let ?i1 = "\<lparr>buffer = replicate bufferSize 0, out = [], numWrite = 0, numRead = 0, rdr = r1\<rparr>"
  let ?i2 = "\<lparr>buffer = replicate bufferSize 0, out = [], numWrite = 0, numRead = 0, rdr = r2\<rparr>"
  obtain x1 s1 where o1: "outerLoop fileSize dataSize ?i1 = (x1, s1)"
    by (cases "outerLoop fileSize dataSize ?i1")
  obtain x2 s2 where o2: "outerLoop fileSize dataSize ?i2 = (x2, s2)"
    by (cases "outerLoop fileSize dataSize ?i2")
  from assms(1) have "sameState ?i1 ?i2" by (simp add: sameState_def)
  from outerLoop_same [OF this o1 o2] have eq: "x1 = x2" "sameState s1 s2" by simp_all
  from assms(2) o1 have u1: "(d1, e1, r1') = (case x1 of Some e \<Rightarrow> (buffer s1, Some e, rdr s1)
                                             | None \<Rightarrow> (out s1, None, rdr s1))"
    by (simp add: uncompressData_def split: option.splits)
  from assms(3) o2 eq have u2: "(d2, e2, r2') = (case x1 of Some e \<Rightarrow> (buffer s2, Some e, rdr s2)
                                             | None \<Rightarrow> (out s2, None, rdr s2))"
    by (simp add: uncompressData_def split: option.splits)
  from u1 u2 eq(2) have "d1 = d2 \<and> e1 = e2 \<and> sameInput r1' r2'"
    by (cases x1) (simp_all add: sameState_def)
  then show ?thesis by (simp add: uncompressData_def)
qed

text \<open>
  The instance: a first call decodes eight literals \<open>A\<close> into its dictionary; a second call
  on the stream that it leaves starts with a back-reference to position 0 and copies three
  zero bytes, as a call on a fresh stream of the three remaining bytes does.
\<close>

theorem uncompressData_deterministic_witness:
  "uncompressData \<lparr>bytes = [0xFF, 65, 65, 65, 65, 65, 65, 65, 65, 0, 0, 0], pos = 0, script = []\<rparr> 8 9
     = ([65, 65, 65, 65, 65, 65, 65, 65], None,
        \<lparr>bytes = [0xFF, 65, 65, 65, 65, 65, 65, 65, 65, 0, 0, 0], pos = 9, script = []\<rparr>)
   \<and> sameInput \<lparr>bytes = [0xFF, 65, 65, 65, 65, 65, 65, 65, 65, 0, 0, 0], pos = 9, script = []\<rparr>
                \<lparr>bytes = [0, 0, 0], pos = 0, script = []\<rparr>
   \<and> fst (uncompressData
            \<lparr>bytes = [0xFF, 65, 65, 65, 65, 65, 65, 65, 65, 0, 0, 0], pos = 9, script = []\<rparr> 3 3)
       = [0, 0, 0]
   \<and> fst (uncompressData \<lparr>bytes = [0, 0, 0], pos = 0, script = []\<rparr> 3 3) = [0, 0, 0]
   \<and> fst (snd (uncompressData \<lparr>bytes = [0, 0, 0], pos = 0, script = []\<rparr> 3 3)) = None"
proof -
  let ?A = "\<lparr>bytes = [0xFF, 65, 65, 65, 65, 65, 65, 65, 65, 0, 0, 0], pos = 0, script = []\<rparr>"
  let ?A' = "\<lparr>bytes = [0xFF, 65, 65, 65, 65, 65, 65, 65, 65, 0, 0, 0], pos = 9, script = []\<rparr>"
  let ?A'' = "\<lparr>bytes = [0xFF, 65, 65, 65, 65, 65, 65, 65, 65, 0, 0, 0], pos = 12, script = []\<rparr>"
  let ?R = "\<lparr>bytes = [0, 0, 0] :: u8 list, pos = 0, script = []\<rparr>"
  have c0: "uncompressData ?A 8 9 = ([65, 65, 65, 65, 65, 65, 65, 65], None, ?A')"
    by code_simp
  have s: "sameInput ?A' ?R" by (simp add: sameInput_def)
  have c1: "uncompressData ?A' 3 3 = ([0, 0, 0], None, ?A'')"
    by code_simp
  obtain d2 e2 r2' where c2: "uncompressData ?R 3 3 = (d2, e2, r2')"
    by (cases "uncompressData ?R 3 3")
  from uncompressData_deterministic [OF s c1 c2] have "d2 = [0, 0, 0]" "e2 = None" by simp_all
  with c0 s c1 c2 show ?thesis by simp
qed

end
